theory Spec2Isabelle
  imports Main
begin

section \<open>High-level schema materialisation (datamodel/high/3.0/schema.go)\<close>

subsection \<open>References of the low-level model\<close>

text \<open>
  A \<^verbatim>\<open>*yaml.Node\<close>, a \<^verbatim>\<open>*low.SchemaProxy\<close> and the leaf objects of the low and
  high model are objects declared outside this file; they are identified by a natural
  number. A pointer that may be \<^verbatim>\<open>nil\<close> is an option.
\<close>

type_synonym yaml_node = nat
type_synonym low_SchemaProxy = nat
type_synonym low_object = nat
type_synonym high_object = nat

text \<open>A value of Go's \<^verbatim>\<open>any\<close>, as far as a parsed document holds one.\<close>

datatype any = AnyNil | AnyString string | AnyInt int | AnyBool bool

text \<open>
  The three generic reference structs of package \<^verbatim>\<open>lowmodel\<close>, with the fields
  that \<^verbatim>\<open>NewSchema\<close> reads and writes.
\<close>

record 'a ValueReference =
  Value :: 'a
  ValueNode :: "yaml_node option"

record 'a KeyReference =
  Value :: 'a
  KeyNode :: "yaml_node option"

record 'a NodeReference =
  Value :: 'a
  ValueNode :: "yaml_node option"
  KeyNode :: "yaml_node option"

subsection \<open>The low-level schema\<close>

text \<open>
  \<^verbatim>\<open>low.Schema\<close> is declared outside this file. The record has the fields that
  \<^verbatim>\<open>NewSchema\<close> reads, each with the type its use requires, and \<open>UniqueItems\<close>, the
  one field of the high-level struct that \<^verbatim>\<open>NewSchema\<close> never reads. The Go map of
  \<open>Properties\<close> is the list of its entries in the order in which \<^verbatim>\<open>range\<close> visits
  them; the keys of a Go map are pairwise different (as structs).
\<close>

record low_Schema =
  Title :: "string NodeReference"
  MultipleOf :: "int NodeReference"
  Maximum :: "int NodeReference"
  ExclusiveMaximum :: "int NodeReference"
  Minimum :: "int NodeReference"
  ExclusiveMinimum :: "int NodeReference"
  MaxLength :: "int NodeReference"
  MinLength :: "int NodeReference"
  Pattern :: "string NodeReference"
  Format :: "string NodeReference"
  MaxItems :: "int NodeReference"
  MinItems :: "int NodeReference"
  UniqueItems :: "int NodeReference"
  MaxProperties :: "int NodeReference"
  MinProperties :: "int NodeReference"
  Required :: "string ValueReference list NodeReference"
  Enum :: "string ValueReference list NodeReference"
  Type :: "string NodeReference"
  AllOf :: "low_SchemaProxy ValueReference list NodeReference"
  OneOf :: "low_SchemaProxy ValueReference list NodeReference"
  AnyOf :: "low_SchemaProxy ValueReference list NodeReference"
  Not :: "low_SchemaProxy ValueReference list NodeReference"
  Items :: "low_SchemaProxy ValueReference list NodeReference"
  Properties ::
    "(string KeyReference \<times> low_SchemaProxy ValueReference) list NodeReference"
  AdditionalProperties :: "any NodeReference"
  Description :: "string NodeReference"
  Default :: "any NodeReference"
  Nullable :: "bool NodeReference"
  Discriminator :: "low_object option NodeReference"
  ReadOnly :: "bool NodeReference"
  WriteOnly :: "bool NodeReference"
  XML :: "low_object option NodeReference"
  ExternalDocs :: "low_object option NodeReference"
  Example :: "any NodeReference"
  Deprecated :: "bool NodeReference"
  Extensions :: "(string KeyReference \<times> any ValueReference) list"

subsection \<open>The high-level schema\<close>

record SchemaProxy =
  schema :: "low_SchemaProxy NodeReference"

text \<open>
  The struct \<^verbatim>\<open>Schema\<close>. A slice is a list (\<^verbatim>\<open>nil\<close> and the empty slice are both
  \<open>[]\<close>); the map \<open>Properties\<close> is \<open>None\<close> while it is \<^verbatim>\<open>nil\<close>.
\<close>

record Schema =
  Title :: string
  MultipleOf :: int
  Maximum :: int
  ExclusiveMaximum :: int
  Minimum :: int
  ExclusiveMinimum :: int
  MaxLength :: int
  MinLength :: int
  Pattern :: string
  Format :: string
  MaxItems :: int
  MinItems :: int
  UniqueItems :: int
  MaxProperties :: int
  MinProperties :: int
  Required :: "string list"
  Enum :: "string list"
  Type :: string
  AllOf :: "SchemaProxy list"
  OneOf :: "SchemaProxy list"
  AnyOf :: "SchemaProxy list"
  Not :: "SchemaProxy list"
  Items :: "SchemaProxy list"
  Properties :: "(string \<rightharpoonup> SchemaProxy) option"
  AdditionalProperties :: any
  Description :: string
  Default :: any
  Nullable :: bool
  Discriminator :: "high_object option"
  ReadOnly :: bool
  WriteOnly :: bool
  XML :: "high_object option"
  ExternalDocs :: "high_object option"
  Example :: any
  Deprecated :: bool
  Extensions :: "string \<rightharpoonup> any"
  low :: "low_Schema option"

subsection \<open>What the file takes from other packages\<close>

text \<open>
  \<^verbatim>\<open>NewSchema\<close> calls one method and four functions whose bodies are in other
  packages: \<^verbatim>\<open>NodeReference.IsEmpty\<close> (on a composition field and on a leaf field),
  \<^verbatim>\<open>high.ExtractExtensions\<close>, \<^verbatim>\<open>NewDiscriminator\<close>, \<^verbatim>\<open>NewXML\<close> and
  \<^verbatim>\<open>NewExternalDoc\<close>. They are parameters of the model.
\<close>

record externals =
  IsEmpty :: "low_SchemaProxy ValueReference list NodeReference \<Rightarrow> bool"
  IsEmptyObject :: "low_object option NodeReference \<Rightarrow> bool"
  ExtractExtensions :: "(string KeyReference \<times> any ValueReference) list \<Rightarrow> (string \<rightharpoonup> any)"
  NewDiscriminator :: "low_object option \<Rightarrow> high_object option"
  NewXML :: "low_object option \<Rightarrow> high_object option"
  NewExternalDoc :: "low_object option \<Rightarrow> high_object option"

subsection \<open>The sequential part of \<^verbatim>\<open>NewSchema\<close> (lines 54 to 99)\<close>

text \<open>\<^verbatim>\<open>new(Schema)\<close>: every field has the zero value of its type.\<close>

definition new_Schema :: Schema where
  "new_Schema =
     \<lparr>Schema.Title = [], MultipleOf = 0, Maximum = 0, ExclusiveMaximum = 0, Minimum = 0,
      ExclusiveMinimum = 0, MaxLength = 0, MinLength = 0, Pattern = [], Format = [],
      MaxItems = 0, MinItems = 0, UniqueItems = 0, MaxProperties = 0, MinProperties = 0,
      Required = [], Enum = [], Type = [], AllOf = [], OneOf = [], AnyOf = [], Not = [],
      Items = [], Properties = None, AdditionalProperties = AnyNil, Description = [],
      Default = AnyNil, Nullable = False, Discriminator = None, ReadOnly = False,
      WriteOnly = False, XML = None, ExternalDocs = None, Example = AnyNil,
      Deprecated = False, Extensions = Map.empty, low = None\<rparr>"

text \<open>
  The two loops \<^verbatim>\<open>for i := range refs { req = append(req, refs[i].Value) }\<close>, with
  the slice built so far as second argument.
\<close>

fun appendValues :: "string ValueReference list \<Rightarrow> string list \<Rightarrow> string list" where
  "appendValues [] req = req"
| "appendValues (r # refs) req = appendValues refs (req @ [ValueReference.Value r])"

definition copyFields :: "externals \<Rightarrow> low_Schema \<Rightarrow> Schema" where
  "copyFields ext ls =
    (let s0 = new_Schema
       \<lparr>low := Some ls,
        Schema.Title := Value (low_Schema.Title ls),
        Schema.MultipleOf := Value (low_Schema.MultipleOf ls),
        Schema.Maximum := Value (low_Schema.Maximum ls),
        Schema.ExclusiveMaximum := Value (low_Schema.ExclusiveMaximum ls),
        Schema.Minimum := Value (low_Schema.Minimum ls),
        Schema.ExclusiveMinimum := Value (low_Schema.ExclusiveMinimum ls),
        Schema.MaxLength := Value (low_Schema.MaxLength ls),
        Schema.MinLength := Value (low_Schema.MinLength ls),
        Schema.Pattern := Value (low_Schema.Pattern ls),
        Schema.Format := Value (low_Schema.Format ls),
        Schema.MaxItems := Value (low_Schema.MaxItems ls),
        Schema.MinItems := Value (low_Schema.MinItems ls),
        Schema.MaxProperties := Value (low_Schema.MaxProperties ls),
        Schema.MinProperties := Value (low_Schema.MinProperties ls),
        Schema.Type := Value (low_Schema.Type ls),
        Schema.AdditionalProperties := Value (low_Schema.AdditionalProperties ls),
        Schema.Description := Value (low_Schema.Description ls),
        Schema.Default := Value (low_Schema.Default ls),
        Schema.Nullable := Value (low_Schema.Nullable ls),
        Schema.ReadOnly := Value (low_Schema.ReadOnly ls),
        Schema.WriteOnly := Value (low_Schema.WriteOnly ls),
        Schema.Example := Value (low_Schema.Example ls),
        Schema.Deprecated := Value (low_Schema.Deprecated ls),
        Schema.Extensions := ExtractExtensions ext (low_Schema.Extensions ls)\<rparr>;
       s1 = (if \<not> IsEmptyObject ext (low_Schema.Discriminator ls)
             then s0\<lparr>Schema.Discriminator :=
                        NewDiscriminator ext (Value (low_Schema.Discriminator ls))\<rparr>
             else s0);
       s2 = (if \<not> IsEmptyObject ext (low_Schema.XML ls)
             then s1\<lparr>Schema.XML := NewXML ext (Value (low_Schema.XML ls))\<rparr>
             else s1);
       s3 = (if \<not> IsEmptyObject ext (low_Schema.ExternalDocs ls)
             then s2\<lparr>Schema.ExternalDocs :=
                        NewExternalDoc ext (Value (low_Schema.ExternalDocs ls))\<rparr>
             else s2)
     in s3\<lparr>Schema.Required := appendValues (Value (low_Schema.Required ls)) [],
           Schema.Enum := appendValues (Value (low_Schema.Enum ls)) []\<rparr>)"

subsection \<open>The goroutines\<close>

text \<open>
  \<^verbatim>\<open>buildSchemaChild\<close> up to its send: the proxy \<open>p\<close> that the goroutine offers on
  \<^verbatim>\<open>bChan\<close>. The composite literal leaves \<open>KeyNode\<close> \<^verbatim>\<open>nil\<close>.
\<close>

definition buildSchemaChild :: "low_SchemaProxy ValueReference \<Rightarrow> SchemaProxy" where
  "buildSchemaChild sch =
     \<lparr>schema = \<lparr>NodeReference.Value = ValueReference.Value sch,
                 ValueNode = ValueReference.ValueNode sch,
                 KeyNode = None\<rparr>\<rparr>"

text \<open>The proxy that \<^verbatim>\<open>buildProps\<close> stores under \<^verbatim>\<open>k.Value\<close>.\<close>

definition propsProxy ::
  "string KeyReference \<Rightarrow> low_SchemaProxy ValueReference \<Rightarrow> SchemaProxy" where
  "propsProxy k v =
     \<lparr>schema = \<lparr>NodeReference.Value = ValueReference.Value v,
                 ValueNode = ValueReference.ValueNode v,
                 KeyNode = KeyReference.KeyNode k\<rparr>\<rparr>"

text \<open>The five composition fields, in the order in which \<^verbatim>\<open>NewSchema\<close> launches them.\<close>

datatype slot = AllOf_slot | AnyOf_slot | OneOf_slot | Not_slot | Items_slot

fun slot_ref ::
  "low_Schema \<Rightarrow> slot \<Rightarrow> low_SchemaProxy ValueReference list NodeReference" where
  "slot_ref ls AllOf_slot = low_Schema.AllOf ls"
| "slot_ref ls AnyOf_slot = low_Schema.AnyOf ls"
| "slot_ref ls OneOf_slot = low_Schema.OneOf ls"
| "slot_ref ls Not_slot = low_Schema.Not ls"
| "slot_ref ls Items_slot = low_Schema.Items ls"

text \<open>
  A running \<^verbatim>\<open>buildOutSchema\<close>, after its launch loop: \<open>totalSchemas\<close> and \<open>j\<close> are
  its locals; \<open>senders ! v\<close> is \<open>Some p\<close> while the goroutine launched for
  \<^verbatim>\<open>schemas[v]\<close> is blocked in \<^verbatim>\<open>bChan <- p\<close> (the channel has no buffer) and \<open>None\<close>
  once its value has been received; \<open>signalled\<close> holds once \<^verbatim>\<open>doneChan <- true\<close> has
  been received.
\<close>

record coordinator =
  totalSchemas :: nat
  senders :: "SchemaProxy option list"
  j :: nat
  signalled :: bool

definition buildOutSchema :: "low_SchemaProxy ValueReference list \<Rightarrow> coordinator" where
  "buildOutSchema schemas =
     \<lparr>totalSchemas = length schemas,
      senders = map (\<lambda>sch. Some (buildSchemaChild sch)) schemas,
      j = 0,
      signalled = False\<rparr>"

text \<open>
  A \<^verbatim>\<open>buildProps\<close> goroutine is waiting for \<^verbatim>\<open>plock\<close>, or holds it and is blocked in
  \<^verbatim>\<open>c <- true\<close> (its two writes done), or has sent and has the deferred
  \<^verbatim>\<open>plock.Unlock()\<close> left to run, or has ended.
\<close>

datatype buildProps_at = AtLock | AtSend | AtUnlock | Ended

text \<open>
  The calling goroutine is in the \<^verbatim>\<open>select\<close> of the loop \<^verbatim>\<open>allDone\<close>, or past the
  \<^verbatim>\<open>if\<close> that holds the loop (line 202), or has returned.
\<close>

datatype main_at = AtBarrier | AfterBarrier | Returned

subsection \<open>The shared state and the steps of the goroutines\<close>

text \<open>
  The state that the goroutines of one call share: the object \<open>s\<close> under construction
  (\<open>sv\<close>), where the caller is (\<open>pc\<close>), its two counters, the mutex \<open>plock\<close> (held or
  not), the map \<open>props\<close>, the \<^verbatim>\<open>buildProps\<close> goroutines (one per entry of the
  properties, by position), the locals \<^verbatim>\<open>allOf\<close>, \<^verbatim>\<open>anyOf\<close>, \<^verbatim>\<open>oneOf\<close>, \<^verbatim>\<open>not\<close>
  and \<^verbatim>\<open>items\<close> (\<open>slices\<close>), and for every composition field the \<^verbatim>\<open>buildOutSchema\<close>
  goroutine launched for it, if one was.
\<close>

record state =
  sv :: Schema
  pc :: main_at
  completeChildren :: nat
  completedProps :: nat
  plock :: bool
  props :: "string \<rightharpoonup> SchemaProxy"
  workers :: "buildProps_at list"
  slices :: "slot \<Rightarrow> SchemaProxy list"
  coordinators :: "slot \<Rightarrow> coordinator option"

definition totalProps :: "low_Schema \<Rightarrow> nat" where
  "totalProps ls = length (Value (low_Schema.Properties ls))"

definition totalChildren :: "low_Schema \<Rightarrow> nat" where
  "totalChildren ls =
     length (Value (low_Schema.AllOf ls)) + length (Value (low_Schema.OneOf ls)) +
     length (Value (low_Schema.AnyOf ls)) + length (Value (low_Schema.Items ls)) +
     length (Value (low_Schema.Not ls))"

text \<open>
  The test that follows each receive of the loop \<^verbatim>\<open>allDone\<close>: \<^verbatim>\<open>break allDone\<close> when
  both counters have reached their totals, another round of the loop otherwise.
\<close>

definition allDone :: "low_Schema \<Rightarrow> state \<Rightarrow> state" where
  "allDone ls st =
     (if totalProps ls = completedProps st \<and> totalChildren ls = completeChildren st
      then st\<lparr>pc := AfterBarrier\<rparr> else st)"

text \<open>
  What can happen next. The channels have no buffer, so a send and its receive are one
  event.
  \<^item> \<open>PropsLock i\<close>: the \<^verbatim>\<open>buildProps\<close> goroutine of entry \<open>i\<close> gets \<^verbatim>\<open>plock\<close> and
    writes \<^verbatim>\<open>props[k.Value]\<close> and \<^verbatim>\<open>s.Properties\<close> (nothing else touches either while
    the lock is held);
  \<^item> \<open>PropsSend i\<close>: its \<^verbatim>\<open>c <- true\<close> meets the caller's \<^verbatim>\<open><-propsChan\<close>;
  \<^item> \<open>PropsUnlock i\<close>: its deferred \<^verbatim>\<open>plock.Unlock()\<close>;
  \<^item> \<open>ChildSend c v\<close>: in the \<^verbatim>\<open>buildOutSchema\<close> of field \<open>c\<close>, the
    \<^verbatim>\<open>bChan <- p\<close> of the goroutine of \<^verbatim>\<open>schemas[v]\<close> meets \<^verbatim>\<open>t := <-bChan\<close>;
  \<^item> \<open>DoneSend c\<close>: the \<^verbatim>\<open>doneChan <- true\<close> of that \<^verbatim>\<open>buildOutSchema\<close> meets the
    caller's \<^verbatim>\<open><-polyCompletedChan\<close>;
  \<^item> \<open>Return\<close>: the caller runs lines 202 to 208.
\<close>

datatype event =
    PropsLock nat
  | PropsSend nat
  | PropsUnlock nat
  | ChildSend slot nat
  | DoneSend slot
  | Return

text \<open>One event in a state; \<open>None\<close> when the event cannot happen there.\<close>

fun step :: "low_Schema \<Rightarrow> event \<Rightarrow> state \<Rightarrow> state option" where
  "step ls (PropsLock i) st =
     (if i < length (workers st) \<and> i < length (Value (low_Schema.Properties ls)) \<and>
         workers st ! i = AtLock \<and> \<not> plock st
      then
        (let k = fst (Value (low_Schema.Properties ls) ! i);
             v = snd (Value (low_Schema.Properties ls) ! i);
             props' = (props st)(KeyReference.Value k \<mapsto> propsProxy k v)
         in Some (st\<lparr>plock := True,
                      props := props',
                      sv := (sv st)\<lparr>Schema.Properties := Some props'\<rparr>,
                      workers := (workers st)[i := AtSend]\<rparr>))
      else None)"
| "step ls (PropsSend i) st =
     (if i < length (workers st) \<and> workers st ! i = AtSend \<and> pc st = AtBarrier
      then Some (allDone ls (st\<lparr>completedProps := completedProps st + 1,
                                  workers := (workers st)[i := AtUnlock]\<rparr>))
      else None)"
| "step ls (PropsUnlock i) st =
     (if i < length (workers st) \<and> workers st ! i = AtUnlock
      then Some (st\<lparr>plock := False, workers := (workers st)[i := Ended]\<rparr>)
      else None)"
| "step ls (ChildSend c v) st =
     (case coordinators st c of
        None \<Rightarrow> None
      | Some co \<Rightarrow>
          (if j co < totalSchemas co \<and> v < length (senders co) then
             (case senders co ! v of
                None \<Rightarrow> None
              | Some t \<Rightarrow>
                  Some (st\<lparr>slices := (slices st)(c := slices st c @ [t]),
                           coordinators := (coordinators st)
                             (c \<mapsto> co\<lparr>j := j co + 1, senders := (senders co)[v := None]\<rparr>)\<rparr>))
           else None))"
| "step ls (DoneSend c) st =
     (case coordinators st c of
        None \<Rightarrow> None
      | Some co \<Rightarrow>
          (if \<not> j co < totalSchemas co \<and> \<not> signalled co \<and> pc st = AtBarrier
           then Some (allDone ls (st\<lparr>completeChildren := completeChildren st + 1,
                                       coordinators := (coordinators st)
                                         (c \<mapsto> co\<lparr>signalled := True\<rparr>)\<rparr>))
           else None))"
| "step ls Return st =
     (if pc st = AfterBarrier
      then Some (st\<lparr>pc := Returned,
                    sv := (sv st)\<lparr>Schema.OneOf := slices st OneOf_slot,
                                   Schema.AnyOf := slices st AnyOf_slot,
                                   Schema.AllOf := slices st AllOf_slot,
                                   Schema.Items := slices st Items_slot,
                                   Schema.Not := slices st Not_slot\<rparr>\<rparr>)
      else None)"

text \<open>A schedule is the list of the events in the order in which they happen.\<close>

fun exec :: "low_Schema \<Rightarrow> event list \<Rightarrow> state \<Rightarrow> state option" where
  "exec ls [] st = Some st"
| "exec ls (e # es) st =
     (case step ls e st of None \<Rightarrow> None | Some st' \<Rightarrow> exec ls es st')"

text \<open>
  The state when the caller reaches line 185. The caller has copied the fields, made the
  channels, and launched one \<^verbatim>\<open>buildProps\<close> per entry and one \<^verbatim>\<open>buildOutSchema\<close> per
  composition field that is not \<^verbatim>\<open>IsEmpty\<close>. A launch reads and writes nothing that a
  launched goroutine writes or reads, and no goroutine can pass a send to the caller
  before the caller is in the loop, so the launches are taken as done before the first
  event. With both totals zero the caller does not enter the loop.
\<close>

definition init :: "externals \<Rightarrow> low_Schema \<Rightarrow> state" where
  "init ext ls =
     \<lparr>sv = copyFields ext ls,
      pc = (if totalProps ls + totalChildren ls > 0 then AtBarrier else AfterBarrier),
      completeChildren = 0,
      completedProps = 0,
      plock = False,
      props = Map.empty,
      workers = map (\<lambda>kv. AtLock) (Value (low_Schema.Properties ls)),
      slices = (\<lambda>c. []),
      coordinators = (\<lambda>c. if \<not> IsEmpty ext (slot_ref ls c)
                           then Some (buildOutSchema (Value (slot_ref ls c)))
                           else None)\<rparr>"

text \<open>
  \<^verbatim>\<open>NewSchema\<close> under a schedule: the object it returns, or \<open>None\<close> when the schedule
  is not one of the call or does not take the caller to its \<^verbatim>\<open>return\<close>.
\<close>

definition NewSchema :: "externals \<Rightarrow> event list \<Rightarrow> low_Schema \<Rightarrow> Schema option" where
  "NewSchema ext sched ls =
     (case exec ls sched (init ext ls) of
        None \<Rightarrow> None
      | Some st \<Rightarrow> if pc st = Returned then Some (sv st) else None)"

subsection \<open>Example documents\<close>

text \<open>
  An instance of the parameters: a reference is empty when it has neither a key node nor
  a value node; extensions are kept by key; a leaf object of the high model has the
  number of the low one.
\<close>

definition ext0 :: externals where
  "ext0 =
     \<lparr>IsEmpty = (\<lambda>r. NodeReference.KeyNode r = None \<and> NodeReference.ValueNode r = None),
      IsEmptyObject = (\<lambda>r. NodeReference.KeyNode r = None \<and> NodeReference.ValueNode r = None),
      ExtractExtensions =
        (\<lambda>es. map_of (map (\<lambda>kv. (KeyReference.Value (fst kv), ValueReference.Value (snd kv))) es)),
      NewDiscriminator = (\<lambda>d. d),
      NewXML = (\<lambda>x. x),
      NewExternalDoc = (\<lambda>d. d)\<rparr>"

text \<open>A field that the document does not have, and a field it has at the given nodes.\<close>

definition absent :: "'a \<Rightarrow> 'a NodeReference" where
  "absent z = \<lparr>NodeReference.Value = z, ValueNode = None, KeyNode = None\<rparr>"

definition present :: "yaml_node \<Rightarrow> yaml_node \<Rightarrow> 'a \<Rightarrow> 'a NodeReference" where
  "present kn vn x = \<lparr>NodeReference.Value = x, ValueNode = Some vn, KeyNode = Some kn\<rparr>"

definition vref :: "yaml_node \<Rightarrow> 'a \<Rightarrow> 'a ValueReference" where
  "vref vn x = \<lparr>ValueReference.Value = x, ValueNode = Some vn\<rparr>"

definition kref :: "yaml_node \<Rightarrow> 'a \<Rightarrow> 'a KeyReference" where
  "kref kn x = \<lparr>KeyReference.Value = x, KeyNode = Some kn\<rparr>"

text \<open>The schema of the empty document \<^verbatim>\<open>{}\<close>.\<close>

definition empty_low :: low_Schema where
  "empty_low =
     \<lparr>low_Schema.Title = absent [], MultipleOf = absent 0, Maximum = absent 0,
      ExclusiveMaximum = absent 0, Minimum = absent 0, ExclusiveMinimum = absent 0,
      MaxLength = absent 0, MinLength = absent 0, Pattern = absent [], Format = absent [],
      MaxItems = absent 0, MinItems = absent 0, UniqueItems = absent 0,
      MaxProperties = absent 0, MinProperties = absent 0, Required = absent [],
      Enum = absent [], Type = absent [], AllOf = absent [], OneOf = absent [],
      AnyOf = absent [], Not = absent [], Items = absent [], Properties = absent [],
      AdditionalProperties = absent AnyNil, Description = absent [],
      Default = absent AnyNil, Nullable = absent False, Discriminator = absent None,
      ReadOnly = absent False, WriteOnly = absent False, XML = absent None,
      ExternalDocs = absent None, Example = absent AnyNil, Deprecated = absent False,
      Extensions = []\<rparr>"

text \<open>
  A schema with some scalar fields, two required names, \<^verbatim>\<open>uniqueItems\<close>, one \<^verbatim>\<open>allOf\<close> element
  and two properties, and a schedule of its call.
\<close>

definition pet :: low_Schema where
  "pet = empty_low
     \<lparr>low_Schema.Title := present 1 2 ''Pet'',
      low_Schema.MaxLength := present 3 4 64,
      low_Schema.UniqueItems := present 5 6 1,
      low_Schema.Type := present 20 21 ''object'',
      low_Schema.Nullable := present 22 23 True,
      low_Schema.Required := present 7 8 [vref 9 ''id'', vref 10 ''name''],
      low_Schema.AllOf := present 11 12 [vref 13 100],
      low_Schema.Properties := present 14 15
         [(kref 16 ''id'', vref 17 101), (kref 18 ''name'', vref 19 102)]\<rparr>"

definition pet_schedule :: "event list" where
  "pet_schedule =
     [PropsLock 1, ChildSend AllOf_slot 0, PropsSend 1, DoneSend AllOf_slot,
      PropsUnlock 1, PropsLock 0, PropsSend 0, Return, PropsUnlock 0]"

text \<open>A schema with the same two properties and nothing else.\<close>

definition two_props :: low_Schema where
  "two_props = empty_low
     \<lparr>low_Schema.Properties := present 14 15
         [(kref 16 ''id'', vref 17 101), (kref 18 ''name'', vref 19 102)]\<rparr>"

text \<open>A schema whose only content is an \<^verbatim>\<open>allOf\<close> of two elements.\<close>

definition pair :: low_Schema where
  "pair = empty_low\<lparr>low_Schema.AllOf := present 1 2 [vref 3 100, vref 4 101]\<rparr>"

text \<open>
  A schema with five elements in every composition field and a thousand properties.
\<close>

definition five :: "nat \<Rightarrow> low_SchemaProxy ValueReference list" where
  "five n = map (\<lambda>i. vref i i) [n..<n + 5]"

definition big :: low_Schema where
  "big = empty_low
     \<lparr>low_Schema.AllOf := present 1 2 (five 2000),
      low_Schema.OneOf := present 3 4 (five 2010),
      low_Schema.AnyOf := present 5 6 (five 2020),
      low_Schema.Not := present 7 8 (five 2030),
      low_Schema.Items := present 9 10 (five 2040),
      low_Schema.Properties := present 11 12
         (map (\<lambda>i. (kref i (replicate (Suc i) CHR ''p''), vref i i)) [0..<1000])\<rparr>"

text \<open>
  Documents with a composition field that is present and has no element, as in
  \<^verbatim>\<open>oneOf: []\<close>: an \<^verbatim>\<open>allOf\<close> of two elements beside an empty \<^verbatim>\<open>oneOf\<close>, with two
  schedules of its call; and an \<^verbatim>\<open>anyOf\<close> of two elements beside an empty \<^verbatim>\<open>allOf\<close>
  and an empty \<^verbatim>\<open>oneOf\<close>, with one.
\<close>

definition pair_and_empty :: low_Schema where
  "pair_and_empty = empty_low
     \<lparr>low_Schema.AllOf := present 1 2 [vref 3 100, vref 4 101],
      low_Schema.OneOf := present 5 6 []\<rparr>"

definition in_order :: "event list" where
  "in_order =
     [ChildSend AllOf_slot 0, ChildSend AllOf_slot 1, DoneSend AllOf_slot,
      DoneSend OneOf_slot, Return]"

definition second_first :: "event list" where
  "second_first =
     [ChildSend AllOf_slot 1, ChildSend AllOf_slot 0, DoneSend AllOf_slot,
      DoneSend OneOf_slot, Return]"

definition two_empty :: low_Schema where
  "two_empty = empty_low
     \<lparr>low_Schema.AllOf := present 1 2 [],
      low_Schema.OneOf := present 3 4 [],
      low_Schema.AnyOf := present 5 6 [vref 7 100, vref 8 101]\<rparr>"

definition empties_first :: "event list" where
  "empties_first = [DoneSend AllOf_slot, DoneSend OneOf_slot, Return]"

text \<open>
  The schedule in which the \<^verbatim>\<open>buildProps\<close> goroutines of \<open>n\<close> entries run one after the
  other, each to its end, and the caller then returns.
\<close>

definition props_events :: "nat \<Rightarrow> event list" where
  "props_events n = concat (map (\<lambda>i. [PropsLock i, PropsSend i, PropsUnlock i]) [0..<n])"

definition props_schedule :: "nat \<Rightarrow> event list" where
  "props_schedule n = props_events n @ [Return]"

subsection \<open>Vocabulary of the statements\<close>

text \<open>The composition fields, and the names under which the properties are stored.\<close>

definition slots :: "slot list" where
  "slots = [AllOf_slot, AnyOf_slot, OneOf_slot, Not_slot, Items_slot]"

definition keys :: "low_Schema \<Rightarrow> string list" where
  "keys ls = map (\<lambda>kv. KeyReference.Value (fst kv)) (Value (low_Schema.Properties ls))"

text \<open>
  \<^verbatim>\<open>IsEmpty\<close> is a parameter. A document is well formed for it when it holds of
  exactly the composition fields that have no element: a field that is not empty has
  at least one element, and an empty one has none.
\<close>

definition well_formed :: "externals \<Rightarrow> low_Schema \<Rightarrow> bool" where
  "well_formed ext ls =
     (\<forall>c \<in> set slots. IsEmpty ext (slot_ref ls c) = (Value (slot_ref ls c) = []))"

text \<open>Reading \<^verbatim>\<open>s.Properties\<close>: a \<^verbatim>\<open>nil\<close> map has no entry.\<close>

definition entries :: "Schema \<Rightarrow> (string \<rightharpoonup> SchemaProxy)" where
  "entries s = (case Schema.Properties s of None \<Rightarrow> Map.empty | Some m \<Rightarrow> m)"

text \<open>The events in which the caller receives from a channel.\<close>

fun receives :: "event \<Rightarrow> bool" where
  "receives (PropsSend i) = True"
| "receives (DoneSend c) = True"
| "receives e = False"

subsection \<open>Invariants of the call\<close>

text \<open>
  \<open>strip\<close> forgets the six fields that are written after line 99; what is left is what
  the sequential part wrote.
\<close>

definition strip :: "Schema \<Rightarrow> Schema" where
  "strip s = s\<lparr>Schema.Properties := None, Schema.AllOf := [], Schema.OneOf := [],
               Schema.AnyOf := [], Schema.Not := [], Schema.Items := []\<rparr>"

text \<open>
  A \<^verbatim>\<open>buildProps\<close> goroutine has \<open>sent\<close> once it is past \<^verbatim>\<open>c <- true\<close>; the
  goroutines have \<open>started\<close> once one of them has had the lock.
\<close>

definition sent :: "buildProps_at \<Rightarrow> bool" where
  "sent w = (w = AtUnlock \<or> w = Ended)"

definition started :: "buildProps_at list \<Rightarrow> bool" where
  "started ws = (\<exists>k < length ws. ws ! k \<noteq> AtLock)"

text \<open>
  The counter \<open>completedProps\<close> counts the goroutines that have sent, and
  \<^verbatim>\<open>s.Properties\<close> is the map \<open>props\<close> as soon as one goroutine has written.
\<close>

definition props_inv :: "low_Schema \<Rightarrow> state \<Rightarrow> bool" where
  "props_inv ls st =
     (length (workers st) = totalProps ls \<and>
      completedProps st = length (filter sent (workers st)) \<and>
      Schema.Properties (sv st) = (if started (workers st) then Some (props st) else None))"

text \<open>
  The map \<open>props\<close> holds the entry of every goroutine that has had the lock, and no name
  that is not a key of the document.
\<close>

definition map_inv :: "low_Schema \<Rightarrow> state \<Rightarrow> bool" where
  "map_inv ls st =
     ((\<forall>i < length (workers st). workers st ! i \<noteq> AtLock \<longrightarrow>
         props st (keys ls ! i) =
           Some (propsProxy (fst (Value (low_Schema.Properties ls) ! i))
                            (snd (Value (low_Schema.Properties ls) ! i)))) \<and>
      dom (props st) \<subseteq> set (keys ls))"

text \<open>
  A composition field has a \<^verbatim>\<open>buildOutSchema\<close> exactly when it is not \<^verbatim>\<open>IsEmpty\<close>.
  Its \<open>j\<close> is the length of the slice and the number of elements received; it has
  signalled only with all of them received; the slice holds proxies of the field's
  elements.
\<close>

definition slot_inv :: "externals \<Rightarrow> low_Schema \<Rightarrow> state \<Rightarrow> slot \<Rightarrow> bool" where
  "slot_inv ext ls st c =
     (case coordinators st c of
        None \<Rightarrow> IsEmpty ext (slot_ref ls c) \<and> slices st c = []
      | Some co \<Rightarrow>
          \<not> IsEmpty ext (slot_ref ls c) \<and>
          totalSchemas co = length (Value (slot_ref ls c)) \<and>
          length (senders co) = length (Value (slot_ref ls c)) \<and>
          j co = length (slices st c) \<and>
          j co = length (filter (\<lambda>x. x = None) (senders co)) \<and>
          (signalled co \<longrightarrow> j co = totalSchemas co) \<and>
          set (slices st c) \<subseteq> buildSchemaChild ` set (Value (slot_ref ls c)) \<and>
          set (senders co) \<subseteq> insert None (Some ` buildSchemaChild ` set (Value (slot_ref ls c))))"

text \<open>The counter \<open>completeChildren\<close> counts the \<^verbatim>\<open>buildOutSchema\<close> that have signalled.\<close>

definition signals :: "state \<Rightarrow> slot \<Rightarrow> nat" where
  "signals st c =
     (case coordinators st c of None \<Rightarrow> 0 | Some co \<Rightarrow> if signalled co then 1 else 0)"

definition count_inv :: "state \<Rightarrow> bool" where
  "count_inv st =
     (completeChildren st =
        signals st AllOf_slot + signals st OneOf_slot + signals st AnyOf_slot +
        signals st Items_slot + signals st Not_slot)"

text \<open>The caller is past the loop only with both counters at their totals.\<close>

definition main_inv :: "low_Schema \<Rightarrow> state \<Rightarrow> bool" where
  "main_inv ls st =
     (pc st \<noteq> AtBarrier \<longrightarrow>
        completedProps st = totalProps ls \<and> completeChildren st = totalChildren ls)"

definition inv :: "externals \<Rightarrow> low_Schema \<Rightarrow> state \<Rightarrow> bool" where
  "inv ext ls st =
     (props_inv ls st \<and> (\<forall>c. slot_inv ext ls st c) \<and> count_inv st \<and> main_inv ls st \<and>
      strip (sv st) = copyFields ext ls)"

text \<open>What the five composition fields of a returned object hold.\<close>

definition ret_inv :: "low_Schema \<Rightarrow> state \<Rightarrow> bool" where
  "ret_inv ls st =
     (pc st = Returned \<longrightarrow>
        Schema.AllOf (sv st) = map buildSchemaChild (Value (low_Schema.AllOf ls)) \<and>
        Schema.OneOf (sv st) = map buildSchemaChild (Value (low_Schema.OneOf ls)) \<and>
        Schema.AnyOf (sv st) = map buildSchemaChild (Value (low_Schema.AnyOf ls)) \<and>
        Schema.Not (sv st) = map buildSchemaChild (Value (low_Schema.Not ls)) \<and>
        Schema.Items (sv st) = map buildSchemaChild (Value (low_Schema.Items ls)))"

section \<open>Properties\<close>

subsection \<open>Steps and schedules\<close>

lemma exec_invariant:
  assumes "\<And>e st st'. P st \<Longrightarrow> step ls e st = Some st' \<Longrightarrow> P st'"
  shows "P st \<Longrightarrow> exec ls es st = Some st' \<Longrightarrow> P st'"
proof (induction es arbitrary: st)
  case Nil
  then show ?case by simp
next
  case (Cons e es)
  then show ?case using assms by (auto split: option.splits)
qed

lemma step_cases [consumes 1, case_names PropsLock PropsSend PropsUnlock ChildSend DoneSend Return]:
  assumes "step ls e st = Some st'"
  obtains
    (PropsLock) i where "e = PropsLock i" "i < length (workers st)"
      "i < length (Value (low_Schema.Properties ls))" "workers st ! i = AtLock" "\<not> plock st"
      "st' = st\<lparr>plock := True,
           props := (props st)(KeyReference.Value (fst (Value (low_Schema.Properties ls) ! i)) \<mapsto>
                      propsProxy (fst (Value (low_Schema.Properties ls) ! i)) (snd (Value (low_Schema.Properties ls) ! i))),
           sv := (sv st)\<lparr>Schema.Properties := Some ((props st)(KeyReference.Value (fst (Value (low_Schema.Properties ls) ! i)) \<mapsto>
                      propsProxy (fst (Value (low_Schema.Properties ls) ! i)) (snd (Value (low_Schema.Properties ls) ! i))))\<rparr>,
           workers := (workers st)[i := AtSend]\<rparr>"
  | (PropsSend) i where "e = PropsSend i" "i < length (workers st)" "workers st ! i = AtSend"
      "pc st = AtBarrier"
      "st' = allDone ls (st\<lparr>completedProps := completedProps st + 1,
                             workers := (workers st)[i := AtUnlock]\<rparr>)"
  | (PropsUnlock) i where "e = PropsUnlock i" "i < length (workers st)" "workers st ! i = AtUnlock"
      "st' = st\<lparr>plock := False, workers := (workers st)[i := Ended]\<rparr>"
  | (ChildSend) c v co t where "e = ChildSend c v" "coordinators st c = Some co"
      "j co < totalSchemas co" "v < length (senders co)" "senders co ! v = Some t"
      "st' = st\<lparr>slices := (slices st)(c := slices st c @ [t]),
                 coordinators := (coordinators st)
                   (c \<mapsto> co\<lparr>j := j co + 1, senders := (senders co)[v := None]\<rparr>)\<rparr>"
  | (DoneSend) c co where "e = DoneSend c" "coordinators st c = Some co"
      "\<not> j co < totalSchemas co" "\<not> signalled co" "pc st = AtBarrier"
      "st' = allDone ls (st\<lparr>completeChildren := completeChildren st + 1,
                             coordinators := (coordinators st)(c \<mapsto> co\<lparr>signalled := True\<rparr>)\<rparr>)"
  | (Return) "e = Return" "pc st = AfterBarrier"
      "st' = st\<lparr>pc := Returned,
                 sv := (sv st)\<lparr>Schema.OneOf := slices st OneOf_slot,
                                Schema.AnyOf := slices st AnyOf_slot,
                                Schema.AllOf := slices st AllOf_slot,
                                Schema.Items := slices st Items_slot,
                                Schema.Not := slices st Not_slot\<rparr>\<rparr>"
proof (cases e)
  case (PropsLock i)
  with assms that(1)[of i] show ?thesis by (simp add: Let_def split: if_splits)
next
  case (PropsSend i)
  with assms that(2)[of i] show ?thesis by (simp split: if_splits)
next
  case (PropsUnlock i)
  with assms that(3)[of i] show ?thesis by (simp split: if_splits)
next
  case (ChildSend c v)
  with assms that(4)[of c v] show ?thesis by (auto split: if_splits option.splits)
next
  case (DoneSend c)
  with assms that(5)[of c] show ?thesis by (auto split: if_splits option.splits)
next
  case Return
  with assms that(6) show ?thesis by (simp split: if_splits)
qed

lemma allDone_fields [simp]:
  "sv (allDone ls st) = sv st" "completeChildren (allDone ls st) = completeChildren st"
  "completedProps (allDone ls st) = completedProps st" "plock (allDone ls st) = plock st"
  "props (allDone ls st) = props st" "workers (allDone ls st) = workers st"
  "slices (allDone ls st) = slices st" "coordinators (allDone ls st) = coordinators st"
  by (simp_all add: allDone_def)

lemma strip_copyFields: "strip (copyFields ext ls) = copyFields ext ls"
  by (simp add: strip_def copyFields_def new_Schema_def Let_def)

lemma strip_step:
  assumes "step ls e st = Some st'"
  shows "strip (sv st') = strip (sv st)"
  using assms
proof (cases rule: step_cases)
  case (PropsLock i)
  then show ?thesis by (simp add: strip_def)
next
  case (Return)
  then show ?thesis by (simp add: strip_def)
qed (simp_all)

lemma strip_exec: "exec ls es st = Some st' \<Longrightarrow> strip (sv st') = strip (sv st)"
proof (induction es arbitrary: st)
  case Nil
  then show ?case by simp
next
  case (Cons e es)
  then show ?case by (auto split: option.splits dest: strip_step)
qed

subsection \<open>The properties: counters and map\<close>

lemma filter_update_new:
  "i < length ws \<Longrightarrow> \<not> P (ws ! i) \<Longrightarrow> P x \<Longrightarrow>
   length (filter P (ws[i := x])) = Suc (length (filter P ws))"
proof (induction ws arbitrary: i)
  case Nil
  then show ?case by simp
next
  case (Cons w ws)
  then show ?case by (cases i) auto
qed

lemma filter_update_same:
  "i < length ws \<Longrightarrow> P (ws ! i) = P x \<Longrightarrow>
   length (filter P (ws[i := x])) = length (filter P ws)"
proof (induction ws arbitrary: i)
  case Nil
  then show ?case by simp
next
  case (Cons w ws)
  then show ?case by (cases i) auto
qed

lemma started_update:
  "i < length ws \<Longrightarrow> x \<noteq> AtLock \<Longrightarrow> started (ws[i := x])"
  by (auto simp: started_def intro!: exI[of _ i])

lemma started_keep:
  "i < length ws \<Longrightarrow> ws ! i \<noteq> AtLock \<Longrightarrow> started ws"
  by (auto simp: started_def)

lemma props_inv_step:
  assumes "step ls e st = Some st'" and "props_inv ls st"
  shows "props_inv ls st'"
  using assms(1)
proof (cases rule: step_cases)
  case (PropsLock i)
  with assms(2) show ?thesis
    by (simp add: props_inv_def started_update filter_update_same sent_def)
next
  case (PropsSend i)
  with assms(2) show ?thesis
    using started_keep[of i "workers st"]
    by (simp add: props_inv_def started_update filter_update_new sent_def)
next
  case (PropsUnlock i)
  with assms(2) show ?thesis
    using started_keep[of i "workers st"]
    by (simp add: props_inv_def started_update filter_update_same sent_def)
next
  case (ChildSend c v co t)
  with assms(2) show ?thesis by (simp add: props_inv_def)
next
  case (DoneSend c co)
  with assms(2) show ?thesis by (simp add: props_inv_def)
next
  case Return
  with assms(2) show ?thesis by (simp add: props_inv_def)
qed

lemma Properties_copyFields: "Schema.Properties (copyFields ext ls) = None"
  by (simp add: copyFields_def new_Schema_def Let_def)

lemma props_inv_init: "props_inv ls (init ext ls)"
  by (simp add: props_inv_def init_def totalProps_def sent_def started_def Properties_copyFields)

lemma map_inv_step:
  assumes "step ls e st = Some st'" and "map_inv ls st" and "props_inv ls st"
    and "distinct (keys ls)"
  shows "map_inv ls st'"
  using assms(1)
proof (cases rule: step_cases)
  case (PropsLock i)
  have len: "length (workers st) = length (keys ls)"
    using assms(3) by (simp add: props_inv_def totalProps_def keys_def)
  have key: "KeyReference.Value (fst (Value (low_Schema.Properties ls) ! i)) = keys ls ! i"
    using PropsLock(3) by (simp add: keys_def)
  have neq: "keys ls ! k \<noteq> keys ls ! i" if "k < length (workers st)" "k \<noteq> i" for k
    using that PropsLock(2) len assms(4) by (simp add: nth_eq_iff_index_eq)
  have mem: "keys ls ! i \<in> set (keys ls)"
    using PropsLock(2) len by simp
  show ?thesis
    using assms(2) PropsLock(2) neq mem
    unfolding map_inv_def PropsLock(6) key
    by (auto simp: nth_list_update)
next
  case (PropsSend i)
  with assms(2) show ?thesis by (auto simp: map_inv_def nth_list_update)
next
  case (PropsUnlock i)
  with assms(2) show ?thesis by (auto simp: map_inv_def nth_list_update)
next
  case (ChildSend c v co t)
  with assms(2) show ?thesis by (simp add: map_inv_def)
next
  case (DoneSend c co)
  with assms(2) show ?thesis by (simp add: map_inv_def)
next
  case Return
  with assms(2) show ?thesis by (simp add: map_inv_def)
qed

lemma map_inv_init: "map_inv ls (init ext ls)"
  by (simp add: map_inv_def init_def)

subsection \<open>The composition fields: counters and slices\<close>

lemma slot_inv_init: "slot_inv ext ls (init ext ls) c"
  by (auto simp: slot_inv_def init_def buildOutSchema_def)

lemma slot_inv_frame:
  "coordinators st' c = coordinators st c \<Longrightarrow> slices st' c = slices st c \<Longrightarrow>
   slot_inv ext ls st c \<Longrightarrow> slot_inv ext ls st' c"
  by (auto simp: slot_inv_def split: option.splits)

lemma slot_inv_le:
  assumes "slot_inv ext ls st c" and "coordinators st c = Some co"
  shows "j co \<le> totalSchemas co"
proof -
  from assms have a: "j co = length (filter (\<lambda>x. x = None) (senders co))"
    and b: "length (senders co) = totalSchemas co"
    by (auto simp: slot_inv_def)
  show ?thesis unfolding a b[symmetric] by (rule length_filter_le)
qed

lemma slot_inv_step:
  assumes "step ls e st = Some st'" and "slot_inv ext ls st c"
  shows "slot_inv ext ls st' c"
  using assms(1)
proof (cases rule: step_cases)
  case (PropsLock i)
  then show ?thesis by (intro slot_inv_frame[OF _ _ assms(2)]) simp_all
next
  case (PropsSend i)
  then show ?thesis by (intro slot_inv_frame[OF _ _ assms(2)]) simp_all
next
  case (PropsUnlock i)
  then show ?thesis by (intro slot_inv_frame[OF _ _ assms(2)]) simp_all
next
  case (ChildSend c' v co t)
  show ?thesis
  proof (cases "c' = c")
    case False
    with ChildSend show ?thesis by (intro slot_inv_frame[OF _ _ assms(2)]) simp_all
  next
    case True
    have "Some t \<in> set (senders co)"
      using nth_mem[OF ChildSend(4)] ChildSend(5) by simp
    moreover have "set ((senders co)[v := None]) \<subseteq> insert None (set (senders co))"
      by (rule set_update_subset_insert)
    moreover have "length (filter (\<lambda>x. x = None) ((senders co)[v := None])) =
        Suc (length (filter (\<lambda>x. x = None) (senders co)))"
      using ChildSend(4,5) by (simp add: filter_update_new)
    ultimately show ?thesis
      using True ChildSend(2,3,6) assms(2) by (auto simp: slot_inv_def)
  qed
next
  case (DoneSend c' co)
  show ?thesis
  proof (cases "c' = c")
    case False
    with DoneSend show ?thesis by (intro slot_inv_frame[OF _ _ assms(2)]) simp_all
  next
    case True
    have "j co \<le> totalSchemas co"
      using True DoneSend(2) assms(2) by (simp add: slot_inv_le)
    with DoneSend(3) have "j co = totalSchemas co"
      by simp
    then show ?thesis
      using True DoneSend(2,6) assms(2) by (auto simp: slot_inv_def)
  qed
next
  case Return
  then show ?thesis by (intro slot_inv_frame[OF _ _ assms(2)]) simp_all
qed

lemma count_inv_init: "count_inv (init ext ls)"
  by (simp add: count_inv_def signals_def init_def buildOutSchema_def)

lemma signals_allDone [simp]: "signals (allDone ls st) = signals st"
  by (rule ext) (simp add: signals_def)

lemma count_inv_step:
  assumes "step ls e st = Some st'" and "count_inv st"
  shows "count_inv st'"
  using assms(1)
proof (cases rule: step_cases)
  case (PropsLock i)
  with assms(2) show ?thesis by (simp add: count_inv_def signals_def)
next
  case (PropsSend i)
  with assms(2) show ?thesis by (simp add: count_inv_def) (simp add: signals_def)
next
  case (PropsUnlock i)
  with assms(2) show ?thesis by (simp add: count_inv_def signals_def)
next
  case (ChildSend c v co t)
  then have "signals st' = signals st"
    by (auto simp: signals_def fun_eq_iff)
  with assms(2) ChildSend show ?thesis by (simp add: count_inv_def)
next
  case (DoneSend c co)
  then have "signals st' = (signals st)(c := Suc (signals st c))"
    by (auto simp: signals_def fun_eq_iff)
  with assms(2) DoneSend show ?thesis by (cases c) (simp_all add: count_inv_def)
next
  case Return
  with assms(2) show ?thesis by (simp add: count_inv_def signals_def)
qed

lemma main_inv_init: "main_inv ls (init ext ls)"
  by (simp add: main_inv_def init_def)

lemma main_inv_step:
  assumes "step ls e st = Some st'" and "main_inv ls st"
  shows "main_inv ls st'"
  using assms(1)
proof (cases rule: step_cases)
  case (PropsSend i)
  then show ?thesis by (simp add: main_inv_def allDone_def)
next
  case (DoneSend c co)
  then show ?thesis by (simp add: main_inv_def allDone_def)
qed (use assms(2) in \<open>simp_all add: main_inv_def\<close>)

subsection \<open>The invariant of every reachable state\<close>

lemma set_slots: "set slots = UNIV"
proof -
  have "c \<in> set slots" for c by (cases c) (simp_all add: slots_def)
  then show ?thesis by auto
qed

lemma sv_init: "sv (init ext ls) = copyFields ext ls"
  by (simp add: init_def)

lemma inv_init: "inv ext ls (init ext ls)"
  unfolding inv_def sv_init
  by (intro conjI allI props_inv_init slot_inv_init count_inv_init main_inv_init
      strip_copyFields)

lemma inv_step:
  assumes "inv ext ls st" and "step ls e st = Some st'"
  shows "inv ext ls st'"
proof -
  from assms(1) have p: "props_inv ls st" and s: "\<And>c. slot_inv ext ls st c"
    and c: "count_inv st" and m: "main_inv ls st" and q: "strip (sv st) = copyFields ext ls"
    by (simp_all add: inv_def)
  show ?thesis
    unfolding inv_def
  proof (intro conjI allI)
    show "props_inv ls st'" by (rule props_inv_step[OF assms(2) p])
    show "slot_inv ext ls st' d" for d by (rule slot_inv_step[OF assms(2) s])
    show "count_inv st'" by (rule count_inv_step[OF assms(2) c])
    show "main_inv ls st'" by (rule main_inv_step[OF assms(2) m])
    show "strip (sv st') = copyFields ext ls" using strip_step[OF assms(2)] q by simp
  qed
qed

lemma inv_exec:
  assumes "exec ls es (init ext ls) = Some st"
  shows "inv ext ls st"
proof (rule exec_invariant[where P = "inv ext ls", OF _ _ assms])
  show "inv ext ls (init ext ls)" by (rule inv_init)
next
  fix e st st'
  assume "inv ext ls st" and "step ls e st = Some st'"
  then show "inv ext ls st'" by (rule inv_step)
qed

subsection \<open>What holds once the caller is past the loop\<close>

lemma signals_le:
  assumes "well_formed ext ls" and "slot_inv ext ls st c"
  shows "signals st c \<le> length (Value (slot_ref ls c))"
proof (cases "coordinators st c")
  case None
  then show ?thesis by (simp add: signals_def)
next
  case (Some co)
  with assms(2) have "\<not> IsEmpty ext (slot_ref ls c)"
    by (simp add: slot_inv_def)
  with assms(1) have "Value (slot_ref ls c) \<noteq> []"
    by (simp add: well_formed_def set_slots)
  then have "1 \<le> length (Value (slot_ref ls c))"
    by (cases "Value (slot_ref ls c)") simp_all
  moreover have "signals st c \<le> 1"
    using Some by (simp add: signals_def)
  ultimately show ?thesis by linarith
qed

lemma signals_eq:
  assumes wf: "well_formed ext ls" and i: "inv ext ls st" and pc: "pc st \<noteq> AtBarrier"
  shows "signals st c = length (Value (slot_ref ls c))"
proof -
  have le: "signals st d \<le> length (Value (slot_ref ls d))" for d
    using signals_le[OF wf] i by (simp add: inv_def)
  have "completeChildren st = totalChildren ls"
    using i pc by (simp add: inv_def main_inv_def)
  moreover have "count_inv st"
    using i by (simp add: inv_def)
  ultimately have sum:
    "signals st AllOf_slot + signals st OneOf_slot + signals st AnyOf_slot +
     signals st Items_slot + signals st Not_slot =
     length (Value (slot_ref ls AllOf_slot)) + length (Value (slot_ref ls OneOf_slot)) +
     length (Value (slot_ref ls AnyOf_slot)) + length (Value (slot_ref ls Items_slot)) +
     length (Value (slot_ref ls Not_slot))"
    by (simp add: count_inv_def totalChildren_def)
  note les = le[of AllOf_slot] le[of OneOf_slot] le[of AnyOf_slot] le[of Items_slot]
    le[of Not_slot]
  have "signals st AllOf_slot = length (Value (slot_ref ls AllOf_slot))"
    and "signals st OneOf_slot = length (Value (slot_ref ls OneOf_slot))"
    and "signals st AnyOf_slot = length (Value (slot_ref ls AnyOf_slot))"
    and "signals st Items_slot = length (Value (slot_ref ls Items_slot))"
    and "signals st Not_slot = length (Value (slot_ref ls Not_slot))"
    using sum les by linarith+
  then show ?thesis
    by (cases c) blast+
qed

lemma after_barrier_slices:
  assumes wf: "well_formed ext ls" and i: "inv ext ls st" and pc: "pc st \<noteq> AtBarrier"
  shows "slices st c = map buildSchemaChild (Value (slot_ref ls c))"
proof -
  have si: "slot_inv ext ls st c"
    using i by (simp add: inv_def)
  have eq: "signals st c = length (Value (slot_ref ls c))"
    by (rule signals_eq[OF wf i pc])
  show ?thesis
  proof (cases "coordinators st c")
    case None
    with si have "IsEmpty ext (slot_ref ls c)" and "slices st c = []"
      by (simp_all add: slot_inv_def)
    with wf show ?thesis by (simp add: well_formed_def set_slots)
  next
    case (Some co)
    with si have ne: "\<not> IsEmpty ext (slot_ref ls c)"
      and tot: "totalSchemas co = length (Value (slot_ref ls c))"
      and jl: "j co = length (slices st c)"
      and sg: "signalled co \<longrightarrow> j co = totalSchemas co"
      and sub: "set (slices st c) \<subseteq> buildSchemaChild ` set (Value (slot_ref ls c))"
      by (auto simp: slot_inv_def)
    from ne wf have "Value (slot_ref ls c) \<noteq> []"
      by (simp add: well_formed_def set_slots)
    moreover from eq Some have "length (Value (slot_ref ls c)) \<le> 1"
      by (simp add: signals_def split: if_splits)
    ultimately obtain x where x: "Value (slot_ref ls c) = [x]"
      by (cases "Value (slot_ref ls c)") auto
    with eq Some have "signalled co"
      by (simp add: signals_def split: if_splits)
    with sg tot jl x have "length (slices st c) = 1"
      by simp
    then obtain p where p: "slices st c = [p]"
      by (cases "slices st c") auto
    with sub x show ?thesis by auto
  qed
qed

lemma ret_inv_init: "ret_inv ls (init ext ls)"
  by (simp add: ret_inv_def init_def)

lemma ret_inv_step:
  assumes "step ls e st = Some st'" and wf: "well_formed ext ls" and i: "inv ext ls st"
    and r: "ret_inv ls st"
  shows "ret_inv ls st'"
  using assms(1)
proof (cases rule: step_cases)
  case (PropsLock i)
  with r show ?thesis by (simp add: ret_inv_def)
next
  case (PropsSend i)
  then show ?thesis by (simp add: ret_inv_def allDone_def)
next
  case (PropsUnlock i)
  with r show ?thesis by (simp add: ret_inv_def)
next
  case (ChildSend c v co t)
  with r show ?thesis by (simp add: ret_inv_def)
next
  case (DoneSend c co)
  then show ?thesis by (simp add: ret_inv_def allDone_def)
next
  case Return
  then have "pc st \<noteq> AtBarrier" by simp
  then have "slices st c = map buildSchemaChild (Value (slot_ref ls c))" for c
    by (rule after_barrier_slices[OF wf i])
  from this[of AllOf_slot] this[of OneOf_slot] this[of AnyOf_slot] this[of Not_slot]
    this[of Items_slot] Return
  show ?thesis by (simp add: ret_inv_def)
qed

lemma ret_inv_exec:
  assumes "well_formed ext ls" and "exec ls es (init ext ls) = Some st"
  shows "ret_inv ls st"
proof -
  have "inv ext ls st \<and> ret_inv ls st"
  proof (rule exec_invariant[where P = "\<lambda>st. inv ext ls st \<and> ret_inv ls st", OF _ _ assms(2)])
    show "inv ext ls (init ext ls) \<and> ret_inv ls (init ext ls)"
      by (simp add: inv_init ret_inv_init)
  next
    fix e st st'
    assume "inv ext ls st \<and> ret_inv ls st" and "step ls e st = Some st'"
    then have i: "inv ext ls st" and r: "ret_inv ls st" and s: "step ls e st = Some st'"
      by simp_all
    show "inv ext ls st' \<and> ret_inv ls st'"
      using inv_step[OF i s] ret_inv_step[OF s assms(1) i r] by simp
  qed
  then show ?thesis ..
qed

lemma map_inv_exec:
  assumes "distinct (keys ls)" and "exec ls es (init ext ls) = Some st"
  shows "map_inv ls st"
proof -
  have "inv ext ls st \<and> map_inv ls st"
  proof (rule exec_invariant[where P = "\<lambda>st. inv ext ls st \<and> map_inv ls st", OF _ _ assms(2)])
    show "inv ext ls (init ext ls) \<and> map_inv ls (init ext ls)"
      by (simp add: inv_init map_inv_init)
  next
    fix e st st'
    assume "inv ext ls st \<and> map_inv ls st" and "step ls e st = Some st'"
    then have i: "inv ext ls st" and m: "map_inv ls st" and s: "step ls e st = Some st'"
      by simp_all
    from i have p: "props_inv ls st"
      by (simp add: inv_def)
    show "inv ext ls st' \<and> map_inv ls st'"
      using inv_step[OF i s] map_inv_step[OF s m p assms(1)] by simp
  qed
  then show ?thesis ..
qed

subsection \<open>The fields copied by the sequential part\<close>

lemma NewSchema_SomeD:
  assumes "NewSchema ext sched ls = Some s"
  obtains st where "exec ls sched (init ext ls) = Some st" "pc st = Returned" "sv st = s"
  using assms by (auto simp: NewSchema_def split: option.splits if_splits)

lemma appendValues_map: "appendValues refs req = req @ map ValueReference.Value refs"
  by (induction refs arbitrary: req) simp_all

lemma copyFields_scalars:
  "Schema.Title (copyFields ext ls) = Value (low_Schema.Title ls)"
  "Schema.MultipleOf (copyFields ext ls) = Value (low_Schema.MultipleOf ls)"
  "Schema.Maximum (copyFields ext ls) = Value (low_Schema.Maximum ls)"
  "Schema.ExclusiveMaximum (copyFields ext ls) = Value (low_Schema.ExclusiveMaximum ls)"
  "Schema.Minimum (copyFields ext ls) = Value (low_Schema.Minimum ls)"
  "Schema.ExclusiveMinimum (copyFields ext ls) = Value (low_Schema.ExclusiveMinimum ls)"
  "Schema.MaxLength (copyFields ext ls) = Value (low_Schema.MaxLength ls)"
  "Schema.MinLength (copyFields ext ls) = Value (low_Schema.MinLength ls)"
  "Schema.Pattern (copyFields ext ls) = Value (low_Schema.Pattern ls)"
  "Schema.Format (copyFields ext ls) = Value (low_Schema.Format ls)"
  "Schema.MaxItems (copyFields ext ls) = Value (low_Schema.MaxItems ls)"
  "Schema.MinItems (copyFields ext ls) = Value (low_Schema.MinItems ls)"
  "Schema.MaxProperties (copyFields ext ls) = Value (low_Schema.MaxProperties ls)"
  "Schema.MinProperties (copyFields ext ls) = Value (low_Schema.MinProperties ls)"
  "Schema.Type (copyFields ext ls) = Value (low_Schema.Type ls)"
  "Schema.AdditionalProperties (copyFields ext ls) = Value (low_Schema.AdditionalProperties ls)"
  "Schema.Description (copyFields ext ls) = Value (low_Schema.Description ls)"
  "Schema.Default (copyFields ext ls) = Value (low_Schema.Default ls)"
  "Schema.Nullable (copyFields ext ls) = Value (low_Schema.Nullable ls)"
  "Schema.ReadOnly (copyFields ext ls) = Value (low_Schema.ReadOnly ls)"
  "Schema.WriteOnly (copyFields ext ls) = Value (low_Schema.WriteOnly ls)"
  "Schema.Example (copyFields ext ls) = Value (low_Schema.Example ls)"
  "Schema.Deprecated (copyFields ext ls) = Value (low_Schema.Deprecated ls)"
  by (simp_all add: copyFields_def new_Schema_def Let_def)

lemma copyFields_lists:
  "Schema.Required (copyFields ext ls) = map ValueReference.Value (Value (low_Schema.Required ls))"
  "Schema.Enum (copyFields ext ls) = map ValueReference.Value (Value (low_Schema.Enum ls))"
  by (simp_all add: copyFields_def new_Schema_def Let_def appendValues_map)

lemma copyFields_UniqueItems: "Schema.UniqueItems (copyFields ext ls) = 0"
  by (simp add: copyFields_def new_Schema_def Let_def)

lemma strip_fields:
  "Schema.Title (strip s) = Schema.Title s"
  "Schema.MultipleOf (strip s) = Schema.MultipleOf s"
  "Schema.Maximum (strip s) = Schema.Maximum s"
  "Schema.ExclusiveMaximum (strip s) = Schema.ExclusiveMaximum s"
  "Schema.Minimum (strip s) = Schema.Minimum s"
  "Schema.ExclusiveMinimum (strip s) = Schema.ExclusiveMinimum s"
  "Schema.MaxLength (strip s) = Schema.MaxLength s"
  "Schema.MinLength (strip s) = Schema.MinLength s"
  "Schema.Pattern (strip s) = Schema.Pattern s"
  "Schema.Format (strip s) = Schema.Format s"
  "Schema.MaxItems (strip s) = Schema.MaxItems s"
  "Schema.MinItems (strip s) = Schema.MinItems s"
  "Schema.MaxProperties (strip s) = Schema.MaxProperties s"
  "Schema.MinProperties (strip s) = Schema.MinProperties s"
  "Schema.Type (strip s) = Schema.Type s"
  "Schema.AdditionalProperties (strip s) = Schema.AdditionalProperties s"
  "Schema.Description (strip s) = Schema.Description s"
  "Schema.Default (strip s) = Schema.Default s"
  "Schema.Nullable (strip s) = Schema.Nullable s"
  "Schema.ReadOnly (strip s) = Schema.ReadOnly s"
  "Schema.WriteOnly (strip s) = Schema.WriteOnly s"
  "Schema.Example (strip s) = Schema.Example s"
  "Schema.Deprecated (strip s) = Schema.Deprecated s"
  "Schema.Required (strip s) = Schema.Required s"
  "Schema.Enum (strip s) = Schema.Enum s"
  "Schema.UniqueItems (strip s) = Schema.UniqueItems s"
  by (simp_all add: strip_def)

lemma reachable_strip:
  assumes "exec ls sched (init ext ls) = Some st"
  shows "strip (sv st) = copyFields ext ls"
  using inv_exec[OF assms] by (simp add: inv_def)

text \<open>
  Claim C7. In every state of a call, from the state in which no goroutine has yet taken
  a step (the empty schedule) to the state in which the caller has returned, each of the
  twenty-three scalar fields of the object \<open>s\<close> holds the \<open>Value\<close> of the field of the
  same name of the low-level schema: the fields are copied before any goroutine runs and
  no goroutine writes them.
\<close>

theorem scalar_fields_copied:
  assumes "exec ls sched (init ext ls) = Some st"
  shows "Schema.Title (sv st) = Value (low_Schema.Title ls) \<and>
    Schema.MultipleOf (sv st) = Value (low_Schema.MultipleOf ls) \<and>
    Schema.Maximum (sv st) = Value (low_Schema.Maximum ls) \<and>
    Schema.ExclusiveMaximum (sv st) = Value (low_Schema.ExclusiveMaximum ls) \<and>
    Schema.Minimum (sv st) = Value (low_Schema.Minimum ls) \<and>
    Schema.ExclusiveMinimum (sv st) = Value (low_Schema.ExclusiveMinimum ls) \<and>
    Schema.MaxLength (sv st) = Value (low_Schema.MaxLength ls) \<and>
    Schema.MinLength (sv st) = Value (low_Schema.MinLength ls) \<and>
    Schema.Pattern (sv st) = Value (low_Schema.Pattern ls) \<and>
    Schema.Format (sv st) = Value (low_Schema.Format ls) \<and>
    Schema.MaxItems (sv st) = Value (low_Schema.MaxItems ls) \<and>
    Schema.MinItems (sv st) = Value (low_Schema.MinItems ls) \<and>
    Schema.MaxProperties (sv st) = Value (low_Schema.MaxProperties ls) \<and>
    Schema.MinProperties (sv st) = Value (low_Schema.MinProperties ls) \<and>
    Schema.Type (sv st) = Value (low_Schema.Type ls) \<and>
    Schema.AdditionalProperties (sv st) = Value (low_Schema.AdditionalProperties ls) \<and>
    Schema.Description (sv st) = Value (low_Schema.Description ls) \<and>
    Schema.Default (sv st) = Value (low_Schema.Default ls) \<and>
    Schema.Nullable (sv st) = Value (low_Schema.Nullable ls) \<and>
    Schema.ReadOnly (sv st) = Value (low_Schema.ReadOnly ls) \<and>
    Schema.WriteOnly (sv st) = Value (low_Schema.WriteOnly ls) \<and>
    Schema.Example (sv st) = Value (low_Schema.Example ls) \<and>
    Schema.Deprecated (sv st) = Value (low_Schema.Deprecated ls)"
proof -
  have eq: "strip (sv st) = copyFields ext ls"
    by (rule reachable_strip[OF assms])
  show ?thesis
    unfolding strip_fields[of "sv st", symmetric] eq copyFields_scalars
    by simp
qed

text \<open>
  Claim C8. The fields \<open>Required\<close> and \<open>Enum\<close> of the returned object are as long as the
  reference lists of the low-level schema, and hold at every index the \<open>Value\<close> of the
  reference at that index.
\<close>

theorem Required_Enum_flattened:
  assumes "NewSchema ext sched ls = Some s"
  shows "length (Schema.Required s) = length (Value (low_Schema.Required ls)) \<and>
    (\<forall>i < length (Value (low_Schema.Required ls)).
       Schema.Required s ! i = ValueReference.Value (Value (low_Schema.Required ls) ! i)) \<and>
    length (Schema.Enum s) = length (Value (low_Schema.Enum ls)) \<and>
    (\<forall>i < length (Value (low_Schema.Enum ls)).
       Schema.Enum s ! i = ValueReference.Value (Value (low_Schema.Enum ls) ! i))"
proof -
  from assms obtain st where ex: "exec ls sched (init ext ls) = Some st" and s: "sv st = s"
    by (rule NewSchema_SomeD)
  have eq: "strip s = copyFields ext ls"
    using reachable_strip[OF ex] s by simp
  have "Schema.Required s = map ValueReference.Value (Value (low_Schema.Required ls))"
    unfolding strip_fields(24)[of s, symmetric] eq by (rule copyFields_lists)
  moreover have "Schema.Enum s = map ValueReference.Value (Value (low_Schema.Enum ls))"
    unfolding strip_fields(25)[of s, symmetric] eq by (rule copyFields_lists)
  ultimately show ?thesis by simp
qed

text \<open>
  Claim C10. The field \<open>UniqueItems\<close> of the returned object is the zero value, whatever
  the low-level schema holds in its own \<open>UniqueItems\<close>, and each of the twenty-three
  other scalar fields is assigned the \<open>Value\<close> of the field of the same name of the
  low-level schema.
\<close>

theorem UniqueItems_never_populated:
  assumes "NewSchema ext sched ls = Some s"
  shows "Schema.UniqueItems s = 0 \<and>
    Schema.Title s = Value (low_Schema.Title ls) \<and>
    Schema.MultipleOf s = Value (low_Schema.MultipleOf ls) \<and>
    Schema.Maximum s = Value (low_Schema.Maximum ls) \<and>
    Schema.ExclusiveMaximum s = Value (low_Schema.ExclusiveMaximum ls) \<and>
    Schema.Minimum s = Value (low_Schema.Minimum ls) \<and>
    Schema.ExclusiveMinimum s = Value (low_Schema.ExclusiveMinimum ls) \<and>
    Schema.MaxLength s = Value (low_Schema.MaxLength ls) \<and>
    Schema.MinLength s = Value (low_Schema.MinLength ls) \<and>
    Schema.Pattern s = Value (low_Schema.Pattern ls) \<and>
    Schema.Format s = Value (low_Schema.Format ls) \<and>
    Schema.MaxItems s = Value (low_Schema.MaxItems ls) \<and>
    Schema.MinItems s = Value (low_Schema.MinItems ls) \<and>
    Schema.MaxProperties s = Value (low_Schema.MaxProperties ls) \<and>
    Schema.MinProperties s = Value (low_Schema.MinProperties ls) \<and>
    Schema.Type s = Value (low_Schema.Type ls) \<and>
    Schema.AdditionalProperties s = Value (low_Schema.AdditionalProperties ls) \<and>
    Schema.Description s = Value (low_Schema.Description ls) \<and>
    Schema.Default s = Value (low_Schema.Default ls) \<and>
    Schema.Nullable s = Value (low_Schema.Nullable ls) \<and>
    Schema.ReadOnly s = Value (low_Schema.ReadOnly ls) \<and>
    Schema.WriteOnly s = Value (low_Schema.WriteOnly ls) \<and>
    Schema.Example s = Value (low_Schema.Example ls) \<and>
    Schema.Deprecated s = Value (low_Schema.Deprecated ls)"
proof -
  from assms obtain st where ex: "exec ls sched (init ext ls) = Some st" and s: "sv st = s"
    by (rule NewSchema_SomeD)
  have eq: "strip s = copyFields ext ls"
    using reachable_strip[OF ex] s by simp
  have "Schema.UniqueItems s = 0"
    unfolding strip_fields(26)[of s, symmetric] eq by (rule copyFields_UniqueItems)
  then show ?thesis
    unfolding strip_fields[of s, symmetric] eq copyFields_scalars
    by simp
qed

subsection \<open>Running the properties one after the other\<close>

lemma exec_append:
  "exec ls (xs @ ys) st =
     (case exec ls xs st of None \<Rightarrow> None | Some st' \<Rightarrow> exec ls ys st')"
  by (induction xs arbitrary: st) (simp_all split: option.splits)

lemma props_triple:
  assumes "i < length (workers st)" and "i < length (Value (low_Schema.Properties ls))"
    and "workers st ! i = AtLock" and "\<not> plock st" and "pc st = AtBarrier"
  shows "\<exists>st'. exec ls [PropsLock i, PropsSend i, PropsUnlock i] st = Some st' \<and>
     workers st' = (workers st)[i := Ended] \<and> \<not> plock st' \<and>
     completedProps st' = Suc (completedProps st) \<and>
     completeChildren st' = completeChildren st \<and>
     pc st' = (if totalProps ls = Suc (completedProps st) \<and>
                  totalChildren ls = completeChildren st
               then AfterBarrier else AtBarrier)"
  using assms by (simp add: allDone_def Let_def)

lemma props_events_Suc:
  "props_events (Suc n) = props_events n @ [PropsLock n, PropsSend n, PropsUnlock n]"
  by (simp add: props_events_def)

lemma props_events_run:
  assumes tc: "totalChildren ls = 0" and pos: "0 < totalProps ls"
  shows "n \<le> totalProps ls \<Longrightarrow>
    \<exists>st. exec ls (props_events n) (init ext ls) = Some st \<and>
      length (workers st) = totalProps ls \<and>
      (\<forall>k. n \<le> k \<and> k < totalProps ls \<longrightarrow> workers st ! k = AtLock) \<and>
      \<not> plock st \<and> completedProps st = n \<and> completeChildren st = 0 \<and>
      pc st = (if n = totalProps ls then AfterBarrier else AtBarrier)"
proof (induction n)
  case 0
  show ?case
    using pos by (simp add: props_events_def init_def totalProps_def)
next
  case (Suc n)
  then have "n \<le> totalProps ls" and n: "n < totalProps ls" by simp_all
  with Suc.IH obtain st where ex: "exec ls (props_events n) (init ext ls) = Some st"
    and len: "length (workers st) = totalProps ls"
    and rest: "\<forall>k. n \<le> k \<and> k < totalProps ls \<longrightarrow> workers st ! k = AtLock"
    and lock: "\<not> plock st" and cp: "completedProps st = n"
    and cc: "completeChildren st = 0" and pc: "pc st = AtBarrier"
    by auto
  have w: "workers st ! n = AtLock"
    using rest n by simp
  have "n < length (workers st)" and "n < length (Value (low_Schema.Properties ls))"
    using n len by (simp_all add: totalProps_def)
  from props_triple[OF this w lock pc]
  obtain st' where ex': "exec ls [PropsLock n, PropsSend n, PropsUnlock n] st = Some st'"
    and w': "workers st' = (workers st)[n := Ended]" and lock': "\<not> plock st'"
    and cp': "completedProps st' = Suc (completedProps st)"
    and cc': "completeChildren st' = completeChildren st"
    and pc': "pc st' = (if totalProps ls = Suc (completedProps st) \<and>
                  totalChildren ls = completeChildren st
               then AfterBarrier else AtBarrier)"
    by blast
  have "exec ls (props_events (Suc n)) (init ext ls) = Some st'"
    unfolding props_events_Suc exec_append ex using ex' by simp
  moreover have "length (workers st') = totalProps ls"
    using w' len by simp
  moreover have "\<forall>k. Suc n \<le> k \<and> k < totalProps ls \<longrightarrow> workers st' ! k = AtLock"
    using w' rest by simp
  moreover have "completedProps st' = Suc n"
    using cp' cp by simp
  moreover have "completeChildren st' = 0"
    using cc' cc by simp
  moreover have "pc st' = (if Suc n = totalProps ls then AfterBarrier else AtBarrier)"
    using pc' cp cc tc by auto
  ultimately show ?case
    using lock' by blast
qed

lemma props_schedule_returns:
  assumes tc: "totalChildren ls = 0"
  shows "\<exists>s. NewSchema ext (props_schedule (totalProps ls)) ls = Some s"
proof (cases "totalProps ls = 0")
  case True
  with tc have "pc (init ext ls) = AfterBarrier"
    by (simp add: init_def)
  with True show ?thesis
    by (simp add: NewSchema_def props_schedule_def props_events_def)
next
  case False
  then have "0 < totalProps ls" by simp
  from props_events_run[OF tc this order_refl, of ext]
  obtain st where ex: "exec ls (props_events (totalProps ls)) (init ext ls) = Some st"
    and pc: "pc st = AfterBarrier"
    by auto
  show ?thesis
    unfolding NewSchema_def props_schedule_def exec_append ex using pc by simp
qed

subsection \<open>The returned object\<close>

lemma filter_all:
  "length (filter P xs) = length xs \<Longrightarrow> \<forall>x \<in> set xs. P x"
proof (induction xs)
  case Nil
  show ?case by simp
next
  case (Cons x xs)
  have le: "length (filter P xs) \<le> length xs" by (rule length_filter_le)
  show ?case
  proof (cases "P x")
    case True
    with Cons.prems have "length (filter P xs) = length xs" by simp
    then have "\<forall>y \<in> set xs. P y" by (rule Cons.IH)
    with True show ?thesis by simp
  next
    case False
    then have "filter P (x # xs) = filter P xs" by simp
    with Cons.prems have "length (filter P xs) = Suc (length xs)" by simp
    with le show ?thesis by linarith
  qed
qed

lemma all_sent:
  assumes i: "inv ext ls st" and pc: "pc st \<noteq> AtBarrier"
  shows "length (workers st) = length (Value (low_Schema.Properties ls))"
    and "\<forall>k < length (workers st). workers st ! k \<noteq> AtLock"
proof -
  from i have p: "props_inv ls st" and m: "main_inv ls st"
    unfolding inv_def by blast+
  from p have l: "length (workers st) = totalProps ls"
    and c: "completedProps st = length (filter sent (workers st))"
    unfolding props_inv_def by blast+
  from m pc have t: "completedProps st = totalProps ls"
    unfolding main_inv_def by blast
  show "length (workers st) = length (Value (low_Schema.Properties ls))"
    using l unfolding totalProps_def .
  have "length (filter sent (workers st)) = length (workers st)"
    using l c t by simp
  then have a: "\<forall>w \<in> set (workers st). sent w"
    by (rule filter_all)
  show "\<forall>k < length (workers st). workers st ! k \<noteq> AtLock"
  proof (intro allI impI)
    fix k
    assume "k < length (workers st)"
    then have "workers st ! k \<in> set (workers st)"
      by (rule nth_mem)
    with a have "sent (workers st ! k)"
      by (rule bspec)
    then show "workers st ! k \<noteq> AtLock"
      unfolding sent_def by auto
  qed
qed

lemma returned_props:
  assumes d: "distinct (keys ls)" and ex: "exec ls sched (init ext ls) = Some st"
    and pc: "pc st \<noteq> AtBarrier"
  shows "props st =
    map_of (map (\<lambda>kv. (KeyReference.Value (fst kv), propsProxy (fst kv) (snd kv)))
                (Value (low_Schema.Properties ls)))"
    (is "_ = map_of ?xs")
proof
  fix ks
  have i: "inv ext ls st" by (rule inv_exec[OF ex])
  have m: "map_inv ls st" by (rule map_inv_exec[OF d ex])
  note len = all_sent(1)[OF i pc] and past = all_sent(2)[OF i pc]
  have fst_xs: "map fst ?xs = keys ls"
    by (simp add: keys_def comp_def)
  show "props st ks = map_of ?xs ks"
  proof (cases "ks \<in> set (keys ls)")
    case False
    with m have "props st ks = None"
      by (auto simp: map_inv_def)
    moreover have "fst ` set ?xs = set (keys ls)"
      unfolding set_map[symmetric] fst_xs ..
    with False have "map_of ?xs ks = None"
      by (simp only: map_of_eq_None_iff not_False_eq_True)
    ultimately show ?thesis by simp
  next
    case True
    then obtain k where k: "k < length (keys ls)" "keys ls ! k = ks"
      by (auto simp: in_set_conv_nth)
    then have kl: "k < length (Value (low_Schema.Properties ls))"
      by (simp add: keys_def)
    with m past len k have pk:
      "props st ks = Some (propsProxy (fst (Value (low_Schema.Properties ls) ! k))
                                      (snd (Value (low_Schema.Properties ls) ! k)))"
      by (auto simp: map_inv_def)
    have "(ks, propsProxy (fst (Value (low_Schema.Properties ls) ! k))
                                   (snd (Value (low_Schema.Properties ls) ! k))) \<in> set ?xs"
      using kl k(2) by (auto simp: keys_def intro!: image_eqI[where x = "Value (low_Schema.Properties ls) ! k"])
    moreover have "distinct (map fst ?xs)"
      unfolding fst_xs by (rule d)
    ultimately have "map_of ?xs ks = Some (propsProxy (fst (Value (low_Schema.Properties ls) ! k))
                                   (snd (Value (low_Schema.Properties ls) ! k)))"
      by (intro map_of_is_SomeI)
    with pk show ?thesis by simp
  qed
qed

lemma returned_Properties:
  assumes d: "distinct (keys ls)" and ex: "exec ls sched (init ext ls) = Some st"
    and pc: "pc st \<noteq> AtBarrier"
  shows "Schema.Properties (sv st) =
    (if Value (low_Schema.Properties ls) = [] then None
     else Some (map_of (map (\<lambda>kv. (KeyReference.Value (fst kv), propsProxy (fst kv) (snd kv)))
                (Value (low_Schema.Properties ls)))))"
proof -
  have i: "inv ext ls st" by (rule inv_exec[OF ex])
  note len = all_sent(1)[OF i pc] and past = all_sent(2)[OF i pc]
  have "started (workers st) = (Value (low_Schema.Properties ls) \<noteq> [])"
    using len past by (auto simp: started_def)
  moreover from i have "Schema.Properties (sv st) =
      (if started (workers st) then Some (props st) else None)"
    by (simp add: inv_def props_inv_def)
  ultimately show ?thesis
    using returned_props[OF d ex pc] by simp
qed

lemma Schema_eqI:
  assumes "strip a = strip b" "Schema.Properties a = Schema.Properties b"
    "Schema.AllOf a = Schema.AllOf b" "Schema.OneOf a = Schema.OneOf b"
    "Schema.AnyOf a = Schema.AnyOf b" "Schema.Not a = Schema.Not b"
    "Schema.Items a = Schema.Items b"
  shows "a = b"
  using assms by (cases a, cases b) (simp add: strip_def)

text \<open>
  For a well-formed document, each composition field of a returned object has the length
  of the field of the low-level schema, and two calls that return give equal objects when
  the names of the properties are pairwise different. Such a call returns only when no
  field has more than one element, as shown below; what the call does
  on the other documents is the subject of the last two subsections.
\<close>

lemma slot_cardinality:
  assumes "well_formed ext ls" and "NewSchema ext sched ls = Some s"
  shows "length (Schema.AllOf s) = length (Value (low_Schema.AllOf ls)) \<and>
    length (Schema.OneOf s) = length (Value (low_Schema.OneOf ls)) \<and>
    length (Schema.AnyOf s) = length (Value (low_Schema.AnyOf ls)) \<and>
    length (Schema.Not s) = length (Value (low_Schema.Not ls)) \<and>
    length (Schema.Items s) = length (Value (low_Schema.Items ls))"
proof -
  from assms(2) obtain st where ex: "exec ls sched (init ext ls) = Some st"
    and r: "pc st = Returned" and s: "sv st = s"
    by (rule NewSchema_SomeD)
  from ret_inv_exec[OF assms(1) ex] r s show ?thesis
    by (simp add: ret_inv_def)
qed

lemma NewSchema_deterministic:
  assumes wf: "well_formed ext ls" and d: "distinct (keys ls)"
    and a: "NewSchema ext sched ls = Some s" and b: "NewSchema ext sched' ls = Some s'"
  shows "s = s'"
proof -
  from a obtain st where ex: "exec ls sched (init ext ls) = Some st"
    and r: "pc st = Returned" and s: "sv st = s"
    by (rule NewSchema_SomeD)
  from b obtain st' where ex': "exec ls sched' (init ext ls) = Some st'"
    and r': "pc st' = Returned" and s': "sv st' = s'"
    by (rule NewSchema_SomeD)
  have "strip s = strip s'"
    using reachable_strip[OF ex] reachable_strip[OF ex'] s s' by simp
  moreover have "Schema.Properties s = Schema.Properties s'"
    using returned_Properties[OF d ex] returned_Properties[OF d ex'] r r' s s' by simp
  moreover have "ret_inv ls st" "ret_inv ls st'"
    using ret_inv_exec[OF wf ex] ret_inv_exec[OF wf ex'] by simp_all
  then have "Schema.AllOf s = Schema.AllOf s'" "Schema.OneOf s = Schema.OneOf s'"
    "Schema.AnyOf s = Schema.AnyOf s'" "Schema.Not s = Schema.Not s'"
    "Schema.Items s = Schema.Items s'"
    using r r' s s' by (simp_all add: ret_inv_def)
  ultimately show ?thesis by (rule Schema_eqI)
qed

lemma propsProxy_wraps:
  "NodeReference.Value (schema (propsProxy k v)) = ValueReference.Value v"
  "NodeReference.ValueNode (schema (propsProxy k v)) = ValueReference.ValueNode v"
  "NodeReference.KeyNode (schema (propsProxy k v)) = KeyReference.KeyNode k"
  by (simp_all add: propsProxy_def)

text \<open>
  Claim C6. When the names of the properties are pairwise different, under every schedule
  the property map of the returned object has exactly one entry per entry of the
  low-level schema, and under the name of each entry it holds a proxy whose reference has
  the \<open>Value\<close> and the \<open>ValueNode\<close> of that entry's value reference and the \<open>KeyNode\<close>
  of its key. When no composition field has an element, the call does return, for any
  number of properties.
\<close>

theorem Properties_key_integrity:
  assumes d: "distinct (keys ls)"
  shows "(totalChildren ls = 0 \<longrightarrow>
      (\<exists>s. NewSchema ext (props_schedule (totalProps ls)) ls = Some s)) \<and>
    (\<forall>sched s. NewSchema ext sched ls = Some s \<longrightarrow>
       card (dom (entries s)) = length (Value (low_Schema.Properties ls)) \<and>
       (\<forall>kv \<in> set (Value (low_Schema.Properties ls)).
          \<exists>p. entries s (KeyReference.Value (fst kv)) = Some p \<and>
            p = propsProxy (fst kv) (snd kv) \<and>
            NodeReference.Value (schema p) = ValueReference.Value (snd kv) \<and>
            NodeReference.ValueNode (schema p) = ValueReference.ValueNode (snd kv) \<and>
            NodeReference.KeyNode (schema p) = KeyReference.KeyNode (fst kv)))"
proof -
  let ?es = "Value (low_Schema.Properties ls)"
  let ?xs = "map (\<lambda>kv. (KeyReference.Value (fst kv), propsProxy (fst kv) (snd kv))) ?es"
  have live: "totalChildren ls = 0 \<longrightarrow>
      (\<exists>s. NewSchema ext (props_schedule (totalProps ls)) ls = Some s)"
    by (rule impI) (rule props_schedule_returns)
  have main: "card (dom (entries s)) = length ?es \<and>
       (\<forall>kv \<in> set ?es.
          \<exists>p. entries s (KeyReference.Value (fst kv)) = Some p \<and>
            p = propsProxy (fst kv) (snd kv) \<and>
            NodeReference.Value (schema p) = ValueReference.Value (snd kv) \<and>
            NodeReference.ValueNode (schema p) = ValueReference.ValueNode (snd kv) \<and>
            NodeReference.KeyNode (schema p) = KeyReference.KeyNode (fst kv))"
    if a: "NewSchema ext sched ls = Some s" for sched s
  proof (rule conjI)
    from a obtain st where ex: "exec ls sched (init ext ls) = Some st"
      and r: "pc st = Returned" and s: "sv st = s"
      by (rule NewSchema_SomeD)
    have fst_xs: "map fst ?xs = keys ls"
      by (simp add: keys_def comp_def)
    have e: "entries s = map_of ?xs"
      using returned_Properties[OF d ex] r s by (auto simp: entries_def)
    have dx: "distinct (map fst ?xs)"
      unfolding fst_xs by (rule d)
    have "dom (entries s) = set (keys ls)"
      unfolding e dom_map_of_conv_image_fst set_map[symmetric] fst_xs ..
    moreover have "card (set (keys ls)) = length (keys ls)"
      using d by (rule distinct_card)
    moreover have "length (keys ls) = length ?es"
      by (simp add: keys_def)
    ultimately show "card (dom (entries s)) = length ?es"
      by simp
    show "\<forall>kv \<in> set ?es.
          \<exists>p. entries s (KeyReference.Value (fst kv)) = Some p \<and>
            p = propsProxy (fst kv) (snd kv) \<and>
            NodeReference.Value (schema p) = ValueReference.Value (snd kv) \<and>
            NodeReference.ValueNode (schema p) = ValueReference.ValueNode (snd kv) \<and>
            NodeReference.KeyNode (schema p) = KeyReference.KeyNode (fst kv)"
    proof (rule ballI)
      fix kv
      assume "kv \<in> set ?es"
      then have "(KeyReference.Value (fst kv), propsProxy (fst kv) (snd kv)) \<in> set ?xs"
        by auto
      then have "entries s (KeyReference.Value (fst kv)) = Some (propsProxy (fst kv) (snd kv))"
        unfolding e by (rule map_of_is_SomeI[OF dx])
      then show "\<exists>p. entries s (KeyReference.Value (fst kv)) = Some p \<and>
            p = propsProxy (fst kv) (snd kv) \<and>
            NodeReference.Value (schema p) = ValueReference.Value (snd kv) \<and>
            NodeReference.ValueNode (schema p) = ValueReference.ValueNode (snd kv) \<and>
            NodeReference.KeyNode (schema p) = KeyReference.KeyNode (fst kv)"
        by (simp add: propsProxy_wraps)
    qed
  qed
  show ?thesis
  proof (rule conjI)
    show "totalChildren ls = 0 \<longrightarrow>
      (\<exists>s. NewSchema ext (props_schedule (totalProps ls)) ls = Some s)"
      by (rule live)
    show "\<forall>sched s. NewSchema ext sched ls = Some s \<longrightarrow>
       card (dom (entries s)) = length ?es \<and>
       (\<forall>kv \<in> set ?es.
          \<exists>p. entries s (KeyReference.Value (fst kv)) = Some p \<and>
            p = propsProxy (fst kv) (snd kv) \<and>
            NodeReference.Value (schema p) = ValueReference.Value (snd kv) \<and>
            NodeReference.ValueNode (schema p) = ValueReference.ValueNode (snd kv) \<and>
            NodeReference.KeyNode (schema p) = KeyReference.KeyNode (fst kv))"
      by (intro allI impI) (erule main)
  qed
qed

subsection \<open>Calls that do not wait, and calls that wait for ever\<close>

lemma copyFields_slots:
  "(copyFields ext ls)\<lparr>Schema.OneOf := [], Schema.AnyOf := [], Schema.AllOf := [],
     Schema.Items := [], Schema.Not := []\<rparr> = copyFields ext ls"
  by (simp add: copyFields_def new_Schema_def Let_def)

lemma past_barrier_no_receive:
  "pc st \<noteq> AtBarrier \<Longrightarrow> exec ls sched st = Some st' \<Longrightarrow>
   pc st' \<noteq> AtBarrier \<and> \<not> list_ex receives sched"
proof (induction sched arbitrary: st)
  case Nil
  then show ?case by simp
next
  case (Cons e es)
  from Cons.prems(2) obtain st1 where s: "step ls e st = Some st1"
    and r: "exec ls es st1 = Some st'"
    by (auto split: option.splits)
  from s have "pc st1 \<noteq> AtBarrier \<and> \<not> receives e"
  proof (cases rule: step_cases)
    case (PropsLock i)
    with Cons.prems(1) show ?thesis by simp
  next
    case (PropsSend i)
    with Cons.prems(1) show ?thesis by simp
  next
    case (PropsUnlock i)
    with Cons.prems(1) show ?thesis by simp
  next
    case (ChildSend c v co t)
    with Cons.prems(1) show ?thesis by simp
  next
    case (DoneSend c co)
    with Cons.prems(1) show ?thesis by simp
  next
    case Return
    then show ?thesis by simp
  qed
  with Cons.IH[OF _ r] show ?case by simp
qed

text \<open>
  Claim C9. With no property and no element in any composition field, the caller is past
  the loop from the start: the call returns by its \<open>Return\<close> step alone, and in no
  schedule of the call does the caller reach the \<^verbatim>\<open>select\<close> or take part in a
  receive.
\<close>

theorem empty_input_skips_barrier:
  assumes "Value (low_Schema.Properties ls) = []"
    and "Value (low_Schema.AllOf ls) = []" and "Value (low_Schema.OneOf ls) = []"
    and "Value (low_Schema.AnyOf ls) = []" and "Value (low_Schema.Not ls) = []"
    and "Value (low_Schema.Items ls) = []"
  shows "pc (init ext ls) = AfterBarrier \<and>
    NewSchema ext [Return] ls = Some (copyFields ext ls) \<and>
    (\<forall>sched st. exec ls sched (init ext ls) = Some st \<longrightarrow>
       pc st \<noteq> AtBarrier \<and> \<not> list_ex receives sched)"
proof -
  have p: "pc (init ext ls) = AfterBarrier"
    using assms by (simp add: init_def totalProps_def totalChildren_def)
  have "NewSchema ext [Return] ls = Some (copyFields ext ls)"
    using p by (simp add: NewSchema_def) (simp add: init_def copyFields_slots)
  moreover have "pc st \<noteq> AtBarrier \<and> \<not> list_ex receives sched"
    if "exec ls sched (init ext ls) = Some st" for sched st
    using past_barrier_no_receive[OF _ that] p by simp
  ultimately show ?thesis using p by blast
qed

text \<open>
  Claim C2. The call does not return on every well-formed document: when a composition
  field has two elements or more, no schedule takes the caller to its \<^verbatim>\<open>return\<close>.
  The caller waits for \<open>totalChildren\<close> signals, one per element, and each
  \<^verbatim>\<open>buildOutSchema\<close> signals once.
\<close>

theorem NewSchema_never_returns:
  assumes wf: "well_formed ext ls" and two: "2 \<le> length (Value (slot_ref ls c))"
  shows "NewSchema ext sched ls = None"
proof (rule ccontr)
  assume "NewSchema ext sched ls \<noteq> None"
  then obtain s where "NewSchema ext sched ls = Some s" by auto
  then obtain st where ex: "exec ls sched (init ext ls) = Some st" and r: "pc st = Returned"
    by (rule NewSchema_SomeD)
  have i: "inv ext ls st" by (rule inv_exec[OF ex])
  from r have "pc st \<noteq> AtBarrier" by simp
  then have "signals st c = length (Value (slot_ref ls c))"
    by (rule signals_eq[OF wf i])
  moreover have "signals st c \<le> 1"
    by (simp add: signals_def split: option.splits)
  ultimately show False using two by linarith
qed

subsection \<open>The example documents\<close>

lemmas run_defs = NewSchema_def init_def ext0_def empty_low_def totalProps_def
  totalChildren_def allDone_def buildOutSchema_def present_def absent_def vref_def kref_def
  Let_def

lemma pet_returns:
  "\<exists>st. exec pet pet_schedule (init ext0 pet) = Some st \<and> pc st = Returned"
  by (simp add: run_defs pet_def pet_schedule_def)

lemma pet_NewSchema: "\<exists>s. NewSchema ext0 pet_schedule pet = Some s"
  by (simp add: run_defs pet_def pet_schedule_def)

lemma pet_well_formed: "well_formed ext0 pet"
  by (simp add: well_formed_def slots_def run_defs pet_def)

lemma pet_keys: "keys pet = [''id'', ''name'']"
  by (simp add: keys_def run_defs pet_def)

lemma big_well_formed: "well_formed ext0 big"
  by (simp add: well_formed_def slots_def run_defs big_def five_def)

lemma two_props_facts:
  "totalChildren two_props = 0" "totalProps two_props = 2"
  "keys two_props = [''id'', ''name'']"
  by (simp_all add: keys_def run_defs two_props_def)

text \<open>
  The statement of claim C7 on an example document.
\<close>

theorem scalar_fields_copied_witness:
  "\<exists>st. exec pet pet_schedule (init ext0 pet) = Some st \<and> pc st = Returned \<and>
     Schema.Title (sv st) = ''Pet'' \<and> Schema.MaxLength (sv st) = 64 \<and>
     Schema.Type (sv st) = ''object'' \<and> Schema.Nullable (sv st) = True \<and>
     Schema.Deprecated (sv st) = False"
proof -
  from pet_returns obtain st where ex: "exec pet pet_schedule (init ext0 pet) = Some st"
    and r: "pc st = Returned" by blast
  from scalar_fields_copied[OF ex]
  have "Schema.Title (sv st) = Value (low_Schema.Title pet)"
    and "Schema.MaxLength (sv st) = Value (low_Schema.MaxLength pet)"
    and "Schema.Type (sv st) = Value (low_Schema.Type pet)"
    and "Schema.Nullable (sv st) = Value (low_Schema.Nullable pet)"
    and "Schema.Deprecated (sv st) = Value (low_Schema.Deprecated pet)"
    by blast+
  then have "Schema.Title (sv st) = ''Pet'' \<and> Schema.MaxLength (sv st) = 64 \<and>
     Schema.Type (sv st) = ''object'' \<and> Schema.Nullable (sv st) = True \<and>
     Schema.Deprecated (sv st) = False"
    by (simp add: pet_def empty_low_def present_def absent_def)
  with ex r show ?thesis by blast
qed

text \<open>
  The statement of claim C10 on an example document.
\<close>

theorem UniqueItems_never_populated_witness:
  "\<exists>s. NewSchema ext0 pet_schedule pet = Some s \<and>
     Value (low_Schema.UniqueItems pet) = 1 \<and> Schema.UniqueItems s = 0 \<and>
     Schema.Title s = ''Pet'' \<and> Schema.MaxLength s = 64 \<and>
     Schema.Type s = ''object'' \<and> Schema.Nullable s = True"
proof -
  from pet_NewSchema obtain s where a: "NewSchema ext0 pet_schedule pet = Some s" ..
  from UniqueItems_never_populated[OF a]
  have "Schema.UniqueItems s = 0"
    and "Schema.Title s = Value (low_Schema.Title pet)"
    and "Schema.MaxLength s = Value (low_Schema.MaxLength pet)"
    and "Schema.Type s = Value (low_Schema.Type pet)"
    and "Schema.Nullable s = Value (low_Schema.Nullable pet)"
    by blast+
  then have "Value (low_Schema.UniqueItems pet) = 1 \<and> Schema.UniqueItems s = 0 \<and>
     Schema.Title s = ''Pet'' \<and> Schema.MaxLength s = 64 \<and>
     Schema.Type s = ''object'' \<and> Schema.Nullable s = True"
    by (simp add: pet_def empty_low_def present_def absent_def)
  with a show ?thesis by blast
qed

text \<open>
  The statement of claim C6 on an example document.
\<close>

theorem Properties_key_integrity_witness:
  "(\<exists>s. NewSchema ext0 pet_schedule pet = Some s \<and> card (dom (entries s)) = 2 \<and>
      entries s ''id'' =
        Some \<lparr>schema = \<lparr>NodeReference.Value = 101, ValueNode = Some 17, KeyNode = Some 16\<rparr>\<rparr> \<and>
      entries s ''name'' =
        Some \<lparr>schema = \<lparr>NodeReference.Value = 102, ValueNode = Some 19, KeyNode = Some 18\<rparr>\<rparr>) \<and>
   (\<exists>s. NewSchema ext0 (props_schedule 2) two_props = Some s \<and>
      card (dom (entries s)) = 2 \<and>
      entries s ''id'' =
        Some \<lparr>schema = \<lparr>NodeReference.Value = 101, ValueNode = Some 17, KeyNode = Some 16\<rparr>\<rparr>)"
proof (rule conjI)
  from pet_NewSchema obtain s where a: "NewSchema ext0 pet_schedule pet = Some s" ..
  have d: "distinct (keys pet)" by (simp add: pet_keys)
  have v: "Value (low_Schema.Properties pet) =
      [(kref 16 ''id'', vref 17 101), (kref 18 ''name'', vref 19 102)]"
    by (simp add: pet_def empty_low_def present_def)
  from Properties_key_integrity[OF d, of ext0] a
  have "card (dom (entries s)) = length (Value (low_Schema.Properties pet)) \<and>
       (\<forall>kv \<in> set (Value (low_Schema.Properties pet)).
          \<exists>p. entries s (KeyReference.Value (fst kv)) = Some p \<and>
            p = propsProxy (fst kv) (snd kv) \<and>
            NodeReference.Value (schema p) = ValueReference.Value (snd kv) \<and>
            NodeReference.ValueNode (schema p) = ValueReference.ValueNode (snd kv) \<and>
            NodeReference.KeyNode (schema p) = KeyReference.KeyNode (fst kv))"
    by blast
  then have "card (dom (entries s)) = 2 \<and>
      entries s ''id'' =
        Some \<lparr>schema = \<lparr>NodeReference.Value = 101, ValueNode = Some 17, KeyNode = Some 16\<rparr>\<rparr> \<and>
      entries s ''name'' =
        Some \<lparr>schema = \<lparr>NodeReference.Value = 102, ValueNode = Some 19, KeyNode = Some 18\<rparr>\<rparr>"
    unfolding v by (simp add: kref_def vref_def propsProxy_def)
  with a show "\<exists>s. NewSchema ext0 pet_schedule pet = Some s \<and> card (dom (entries s)) = 2 \<and>
      entries s ''id'' =
        Some \<lparr>schema = \<lparr>NodeReference.Value = 101, ValueNode = Some 17, KeyNode = Some 16\<rparr>\<rparr> \<and>
      entries s ''name'' =
        Some \<lparr>schema = \<lparr>NodeReference.Value = 102, ValueNode = Some 19, KeyNode = Some 18\<rparr>\<rparr>"
    by blast
next
  have d: "distinct (keys two_props)" by (simp add: two_props_facts)
  have v: "Value (low_Schema.Properties two_props) =
      [(kref 16 ''id'', vref 17 101), (kref 18 ''name'', vref 19 102)]"
    by (simp add: two_props_def empty_low_def present_def)
  note k = Properties_key_integrity[OF d, of ext0]
  from k two_props_facts(1)
  have "\<exists>s. NewSchema ext0 (props_schedule (totalProps two_props)) two_props = Some s"
    by blast
  then obtain s where a: "NewSchema ext0 (props_schedule 2) two_props = Some s"
    unfolding two_props_facts(2) ..
  from k a
  have "card (dom (entries s)) = length (Value (low_Schema.Properties two_props)) \<and>
       (\<forall>kv \<in> set (Value (low_Schema.Properties two_props)).
          \<exists>p. entries s (KeyReference.Value (fst kv)) = Some p \<and>
            p = propsProxy (fst kv) (snd kv) \<and>
            NodeReference.Value (schema p) = ValueReference.Value (snd kv) \<and>
            NodeReference.ValueNode (schema p) = ValueReference.ValueNode (snd kv) \<and>
            NodeReference.KeyNode (schema p) = KeyReference.KeyNode (fst kv))"
    by blast
  then have "card (dom (entries s)) = 2 \<and>
      entries s ''id'' =
        Some \<lparr>schema = \<lparr>NodeReference.Value = 101, ValueNode = Some 17, KeyNode = Some 16\<rparr>\<rparr>"
    unfolding v by (simp add: kref_def vref_def propsProxy_def)
  with a show "\<exists>s. NewSchema ext0 (props_schedule 2) two_props = Some s \<and>
      card (dom (entries s)) = 2 \<and>
      entries s ''id'' =
        Some \<lparr>schema = \<lparr>NodeReference.Value = 101, ValueNode = Some 17, KeyNode = Some 16\<rparr>\<rparr>"
    by blast
qed

text \<open>
  The statement of claim C8 on an example document.
\<close>

theorem Required_Enum_flattened_witness:
  "\<exists>s. NewSchema ext0 pet_schedule pet = Some s \<and> length (Schema.Required s) = 2 \<and>
     Schema.Required s ! 0 = ''id'' \<and> Schema.Required s ! 1 = ''name'' \<and>
     length (Schema.Enum s) = 0"
proof -
  from pet_NewSchema obtain s where a: "NewSchema ext0 pet_schedule pet = Some s" ..
  have v: "Value (low_Schema.Required pet) = [vref 9 ''id'', vref 10 ''name'']"
    "Value (low_Schema.Enum pet) = []"
    by (simp_all add: pet_def empty_low_def present_def absent_def)
  from Required_Enum_flattened[OF a]
  have "length (Schema.Required s) = 2 \<and> Schema.Required s ! 0 = ''id'' \<and>
     Schema.Required s ! 1 = ''name'' \<and> length (Schema.Enum s) = 0"
    unfolding v by (simp add: vref_def)
  with a show ?thesis by blast
qed

text \<open>
  The statement of claim C9 on an example document.
\<close>

theorem empty_input_skips_barrier_witness:
  "pc (init ext0 empty_low) = AfterBarrier \<and>
   NewSchema ext0 [Return] empty_low = Some (copyFields ext0 empty_low)"
  using empty_input_skips_barrier[of empty_low ext0]
  by (simp add: empty_low_def absent_def)

text \<open>
  The statement of claim C2 on an example document.
\<close>

theorem NewSchema_never_returns_witness:
  "\<forall>sched. NewSchema ext0 sched big = None"
proof
  fix sched
  have "2 \<le> length (Value (slot_ref big AllOf_slot))"
    by (simp add: big_def empty_low_def present_def five_def)
  then show "NewSchema ext0 sched big = None"
    by (rule NewSchema_never_returns[OF big_well_formed])
qed

subsection \<open>The call on an \<^verbatim>\<open>allOf\<close> of two elements\<close>

lemma pair_blocked_state:
  assumes "exec pair [ChildSend AllOf_slot 0, ChildSend AllOf_slot 1, DoneSend AllOf_slot]
             (init ext0 pair) = Some st"
  shows "pc st = AtBarrier" and "completeChildren st = 1" and "completedProps st = 0"
    and "workers st = []"
    and "coordinators st AllOf_slot =
           Some \<lparr>totalSchemas = 2, senders = [None, None], j = 2, signalled = True\<rparr>"
    and "slices st AllOf_slot = [buildSchemaChild (vref 3 100), buildSchemaChild (vref 4 101)]"
  using assms by (auto simp: run_defs pair_def)

lemma pair_blocked_others:
  assumes "exec pair [ChildSend AllOf_slot 0, ChildSend AllOf_slot 1, DoneSend AllOf_slot]
             (init ext0 pair) = Some st"
    and "c \<noteq> AllOf_slot"
  shows "coordinators st c = None"
  using assms by (cases c) (auto simp: run_defs pair_def)

lemma pair_blocked:
  assumes "exec pair [ChildSend AllOf_slot 0, ChildSend AllOf_slot 1, DoneSend AllOf_slot]
             (init ext0 pair) = Some st"
  shows "step pair e st = None"
proof (cases e)
  case (ChildSend c v)
  then show ?thesis
    using pair_blocked_state(5)[OF assms] pair_blocked_others[OF assms, of c]
    by (cases "c = AllOf_slot") simp_all
next
  case (DoneSend c)
  then show ?thesis
    using pair_blocked_state(5)[OF assms] pair_blocked_others[OF assms, of c]
    by (cases "c = AllOf_slot") simp_all
qed (simp_all add: pair_blocked_state(1,4)[OF assms])

text \<open>
  Claim C1. On the \<^verbatim>\<open>allOf\<close> of two elements the caller expects two signals
  (\<open>totalProps + totalChildren\<close>), one \<^verbatim>\<open>buildOutSchema\<close> is launched, and once it
  has received both elements and signalled, the caller is still in the loop with one
  signal counted and no event can happen any more.
\<close>

theorem barrier_counts_elements:
  "totalProps pair = 0 \<and> totalChildren pair = 2 \<and>
   length (filter (\<lambda>c. coordinators (init ext0 pair) c \<noteq> None) slots) = 1 \<and>
   (\<exists>st. exec pair [ChildSend AllOf_slot 0, ChildSend AllOf_slot 1, DoneSend AllOf_slot]
            (init ext0 pair) = Some st \<and>
         pc st = AtBarrier \<and> completeChildren st = 1 \<and> completedProps st = 0 \<and>
         (\<forall>e. step pair e st = None))"
proof -
  have "totalProps pair = 0 \<and> totalChildren pair = 2 \<and>
     length (filter (\<lambda>c. coordinators (init ext0 pair) c \<noteq> None) slots) = 1"
    by (simp add: run_defs pair_def slots_def)
  moreover obtain st where
    ex: "exec pair [ChildSend AllOf_slot 0, ChildSend AllOf_slot 1, DoneSend AllOf_slot]
            (init ext0 pair) = Some st"
    by (simp add: run_defs pair_def)
  moreover note pair_blocked_state(1,2,3)[OF ex] pair_blocked[OF ex]
  ultimately show ?thesis by blast
qed

text \<open>
  Claim C3. On the \<^verbatim>\<open>allOf\<close> of two elements, when the goroutine of the second
  element sends first, \<^verbatim>\<open>buildOutSchema\<close> leaves its loop with the two proxies in
  the slice in the reverse of the order of the document.
\<close>

theorem arrival_order_append:
  "Value (low_Schema.AllOf pair) = [vref 3 100, vref 4 101] \<and>
   (\<exists>st co. exec pair [ChildSend AllOf_slot 1, ChildSend AllOf_slot 0] (init ext0 pair) = Some st \<and>
      coordinators st AllOf_slot = Some co \<and> j co = totalSchemas co \<and>
      slices st AllOf_slot = [buildSchemaChild (vref 4 101), buildSchemaChild (vref 3 100)] \<and>
      slices st AllOf_slot \<noteq> map buildSchemaChild (Value (low_Schema.AllOf pair)))"
  by (simp add: run_defs pair_def buildSchemaChild_def)

subsection \<open>Composition fields that are present and have no element\<close>

text \<open>
  Claim C4. A composition field that is present with no element has a
  \<^verbatim>\<open>buildOutSchema\<close> that signals at once, and its signal counts like any other. Beside
  an empty \<^verbatim>\<open>allOf\<close> and an empty \<^verbatim>\<open>oneOf\<close> the caller expects two signals for an
  \<^verbatim>\<open>anyOf\<close> of two elements, gets them from the two empty fields, and returns with
  \<open>AnyOf\<close> empty: the returned field does not have the length of the input.
\<close>

theorem returned_slice_short:
  "totalProps two_empty = 0 \<and> totalChildren two_empty = 2 \<and>
   Value (low_Schema.AnyOf two_empty) = [vref 7 100, vref 8 101] \<and>
   (\<exists>s. NewSchema ext0 empties_first two_empty = Some s \<and>
      Schema.AnyOf s = [] \<and> length (Schema.AnyOf s) \<noteq> length (Value (low_Schema.AnyOf two_empty)))"
  by (simp add: run_defs two_empty_def empties_first_def)

text \<open>
  Claim C5. Beside an empty \<^verbatim>\<open>oneOf\<close> the call on an \<^verbatim>\<open>allOf\<close> of two elements
  returns, with the two proxies in the order in which their goroutines sent: two calls on
  the same document return different objects.
\<close>

theorem NewSchema_two_results:
  "\<exists>s s'. NewSchema ext0 in_order pair_and_empty = Some s \<and>
     NewSchema ext0 second_first pair_and_empty = Some s' \<and>
     Schema.AllOf s = [buildSchemaChild (vref 3 100), buildSchemaChild (vref 4 101)] \<and>
     Schema.AllOf s' = [buildSchemaChild (vref 4 101), buildSchemaChild (vref 3 100)] \<and>
     s \<noteq> s'"
proof -
  have "\<exists>s. NewSchema ext0 in_order pair_and_empty = Some s \<and>
     Schema.AllOf s = [buildSchemaChild (vref 3 100), buildSchemaChild (vref 4 101)]"
    by (simp add: run_defs pair_and_empty_def in_order_def)
  then obtain s where a: "NewSchema ext0 in_order pair_and_empty = Some s"
    and as: "Schema.AllOf s = [buildSchemaChild (vref 3 100), buildSchemaChild (vref 4 101)]"
    by blast
  have "\<exists>s. NewSchema ext0 second_first pair_and_empty = Some s \<and>
     Schema.AllOf s = [buildSchemaChild (vref 4 101), buildSchemaChild (vref 3 100)]"
    by (simp add: run_defs pair_and_empty_def second_first_def)
  then obtain s' where b: "NewSchema ext0 second_first pair_and_empty = Some s'"
    and bs: "Schema.AllOf s' = [buildSchemaChild (vref 4 101), buildSchemaChild (vref 3 100)]"
    by blast
  have "buildSchemaChild (vref 3 100) \<noteq> buildSchemaChild (vref 4 101)"
    by (simp add: buildSchemaChild_def vref_def)
  with as bs have "s \<noteq> s'"
    by auto
  with a b as bs show ?thesis by blast
qed

end
